theory Spec2Isabelle
  imports Complex_Main "HOL-Library.Multiset"
begin

section \<open>The matrix finder of the XOR subsystem (matrixfinder.cpp)\<close>

text \<open>
  A shallow embedding of \<^verbatim>\<open>MatrixFinder::belong_same_matrix\<close>,
  \<^verbatim>\<open>MatrixFinder::find_matrices\<close> and
  \<^verbatim>\<open>MatrixFinder::setup_matrices_attach_remaining_cls\<close>.

  Conventions of the embedding.
  \<^item> Variables, component numbers and counters are \<open>uint32_t\<close> in the source and
    \<open>nat\<close> here. \<open>matrix_no\<close> is incremented at most once per constraint and the row
    and arity counters grow by one constraint at a time, so below \<open>2^32\<close> summed
    arities nothing wraps; the admission loop counts down in an \<open>int\<close>, which holds
    \<open>matrix_no - 1\<close> below \<open>2^31\<close> components. The embedding is of runs within these
    sizes.
  \<^item> The marker \<open>var_Undef\<close> in \<open>table\<close> and the \<open>numeric_limits<uint32_t>::max()\<close>
    start value of \<open>comp_num\<close> are \<open>None\<close>.
  \<^item> An index outside a vector, a dereferenced \<open>end()\<close> iterator and a failed
    \<open>assert\<close> have no defined continuation in the source: the embedded function
    returns \<open>None\<close> there.
  \<^item> \<open>double\<close> values are exact reals, with the quotients by zero kept apart
    (\<open>0.0 / 0.0\<close> is \<open>NaN\<close>).
  \<^item> The constructor of \<open>EGaussian\<close> (gaussian.cpp) is recorded by its arguments.
  \<^item> Text output (\<open>verb_print\<close>, \<open>cout\<close>) and the counters that only feed it
    (\<open>unusedMatrix\<close>, \<open>too_few_rows_matrix\<close>, \<open>unused_matrix_printed\<close>), the timer and
    the statistics sink are left out: they never reach a branch condition.
\<close>

subsection \<open>Data\<close>

text \<open>
  Modelled from the spec: the class \<open>Xor\<close> (xor.h) is not part of the sources. The file
  iterates over a constraint's variables (\<open>for v: x\<close>, \<open>x.vars\<close>, \<open>x[0]\<close>, \<open>x.size()\<close>),
  reads \<open>x.clash_vars\<close>, asks \<open>x.trivial()\<close> and writes \<open>x.in_matrix\<close>; the data model
  of the spec lists the variable sequence, the right-hand side, the clash variables, a
  triviality flag and the matrix tag.
\<close>

record Xor =
  vars :: "nat list"
  rhs :: bool
  clash_vars :: "nat list"
  in_matrix :: nat
  trivial :: bool

text \<open>The state of the finder itself: \<open>table\<close>, \<open>reverseTable\<close> and \<open>matrix_no\<close>.\<close>

record MatrixFinder =
  table :: "nat option list"
  reverseTable :: "nat \<rightharpoonup> nat list"
  matrix_no :: nat

subsection \<open>\<open>belong_same_matrix\<close>\<close>

fun belong_loop :: "nat option list \<Rightarrow> nat option \<Rightarrow> nat list \<Rightarrow> bool option" where
  "belong_loop tab comp_num [] = Some True"
| "belong_loop tab comp_num (v # vs) =
     (if length tab \<le> v then None
      else case tab ! v of
        None \<Rightarrow> Some False
      | Some c \<Rightarrow>
          (case comp_num of
             None \<Rightarrow> belong_loop tab (Some c) vs
           | Some c' \<Rightarrow> if c' \<noteq> c then Some False else belong_loop tab comp_num vs))"

definition belong_same_matrix :: "MatrixFinder \<Rightarrow> Xor \<Rightarrow> bool option" where
  "belong_same_matrix mf x = belong_loop (table mf) None (vars x)"

subsection \<open>The partitioning loop of \<open>find_matrices\<close>\<close>

text \<open>\<open>tomerge\<close> is a \<open>std::set\<close>: kept as a strictly increasing list, which is also
  the order in which the source iterates over it.\<close>

fun set_insert :: "nat \<Rightarrow> nat list \<Rightarrow> nat list" where
  "set_insert c [] = [c]"
| "set_insert c (d # ds) =
     (if c < d then c # d # ds else if c = d then d # ds else d # set_insert c ds)"

text \<open>Lines 147-150: split the variables of the constraint.\<close>

fun scan_vars ::
  "nat option list \<Rightarrow> nat list \<Rightarrow> nat list \<Rightarrow> nat list \<Rightarrow> (nat list \<times> nat list) option" where
  "scan_vars tab [] tomerge newSet = Some (tomerge, newSet)"
| "scan_vars tab (v # vs) tomerge newSet =
     (if length tab \<le> v then None
      else case tab ! v of
        Some c \<Rightarrow> scan_vars tab vs (set_insert c tomerge) newSet
      | None \<Rightarrow> scan_vars tab vs tomerge (newSet @ [v]))"

text \<open>Lines 156-159: push every new element to the one component and label it.\<close>

fun absorb ::
  "nat option list \<Rightarrow> nat list \<Rightarrow> nat \<Rightarrow> nat list \<Rightarrow> (nat option list \<times> nat list) option" where
  "absorb tab members into [] = Some (tab, members)"
| "absorb tab members into (elem # es) =
     (if length tab \<le> elem then None
      else absorb (tab[elem := Some into]) (members @ [elem]) into es)"

text \<open>Lines 164-167: \<open>reverseTable[v]\<close> default-inserts an empty list for a missing key,
  the entry is erased right after.\<close>

fun merge_sets ::
  "(nat \<rightharpoonup> nat list) \<Rightarrow> nat list \<Rightarrow> nat list \<Rightarrow> nat list \<times> (nat \<rightharpoonup> nat list)" where
  "merge_sets rt [] newSet = (newSet, rt)"
| "merge_sets rt (v # vs) newSet =
     merge_sets (rt(v := None)) vs (newSet @ (case rt v of None \<Rightarrow> [] | Some l \<Rightarrow> l))"

text \<open>Line 168.\<close>

fun assign_all :: "nat option list \<Rightarrow> nat \<Rightarrow> nat list \<Rightarrow> nat option list option" where
  "assign_all tab c [] = Some tab"
| "assign_all tab c (elem # es) =
     (if length tab \<le> elem then None else assign_all (tab[elem := Some c]) c es)"

text \<open>One iteration of the loop at lines 143-171.\<close>

definition partition_step :: "MatrixFinder \<Rightarrow> Xor \<Rightarrow> MatrixFinder option" where
  "partition_step mf x =
     (case belong_same_matrix mf x of
        None \<Rightarrow> None
      | Some True \<Rightarrow> Some mf
      | Some False \<Rightarrow>
          (case scan_vars (table mf) (vars x) [] [] of
             None \<Rightarrow> None
           | Some (tomerge, newSet) \<Rightarrow>
               (case tomerge of
                  [into] \<Rightarrow>
                    (case reverseTable mf into of
                       None \<Rightarrow> if newSet = [] then Some mf else None
                     | Some members \<Rightarrow>
                         (case absorb (table mf) members into newSet of
                            None \<Rightarrow> None
                          | Some (tab', members') \<Rightarrow>
                              Some (mf\<lparr>table := tab',
                                       reverseTable := (reverseTable mf)(into \<mapsto> members')\<rparr>)))
                | _ \<Rightarrow>
                    (case merge_sets (reverseTable mf) tomerge newSet of
                       (newSet', rt') \<Rightarrow>
                         (case assign_all (table mf) (matrix_no mf) newSet' of
                            None \<Rightarrow> None
                          | Some tab' \<Rightarrow>
                              Some \<lparr>table = tab',
                                    reverseTable = rt'(matrix_no mf \<mapsto> newSet'),
                                    matrix_no = matrix_no mf + 1\<rparr>)))))"

fun partition_loop :: "MatrixFinder \<Rightarrow> Xor list \<Rightarrow> MatrixFinder option" where
  "partition_loop mf [] = Some mf"
| "partition_loop mf (x # xs) =
     (case partition_step mf x of None \<Rightarrow> None | Some mf' \<Rightarrow> partition_loop mf' xs)"

text \<open>Lines 103-106: the finder as \<open>find_matrices\<close> resets it.\<close>

definition init_finder :: "nat \<Rightarrow> MatrixFinder" where
  "init_finder n = \<lparr>table = replicate n None, reverseTable = Map.empty, matrix_no = 0\<rparr>"


subsection \<open>Solver data reached from the finder\<close>

record GaussConf =
  min_gauss_xor_clauses :: nat
  max_gauss_xor_clauses :: nat
  doMatrixFind :: bool
  max_matrix_rows :: nat
  max_matrix_columns :: nat
  min_matrix_rows :: nat
  max_num_matrices :: nat

text \<open>\<open>sampling_vars\<close> is a pointer to a vector: \<open>None\<close> is the null pointer.\<close>

record SolverConf =
  gaussconf :: GaussConf
  sampling_vars :: "nat list option"

datatype lbool = l_True | l_False | l_Undef

text \<open>
  Modelled from the spec: \<open>MatrixShape\<close>, its constructor and \<open>tot_size()\<close> are declared
  in matrixfinder.h, which is not part of the sources. The spec gives the record (row
  count, column count, sum of arities, density) and the density as the sum of arities
  over rows times columns, 0 when that product is 0; a fresh shape has no rows.
\<close>

record MatrixShape =
  num :: nat
  rows :: nat
  cols :: nat
  sum_xor_sizes :: nat
  density :: real

definition new_shape :: "nat \<Rightarrow> MatrixShape" where
  "new_shape i = \<lparr>num = i, rows = 0, cols = 0, sum_xor_sizes = 0, density = 0\<rparr>"

definition tot_size :: "MatrixShape \<Rightarrow> nat" where
  "tot_size m = rows m * cols m"

text \<open>An elimination matrix as the source constructs it: from the number of the matrix
  and the constraints of the component.\<close>

datatype EGaussian = EGaussian (mat_num: nat) (mat_xors: "Xor list")

text \<open>
  The part of the solver that the finder reads or writes. \<open>gqueuedata\<close> is the size of
  that vector. \<open>attached\<close> records the constraint list handed to the last
  \<open>attach_xorclauses\<close>, \<open>None\<close> after \<open>detach_clear_xorclauses\<close>.
\<close>

record Solver =
  nVars :: nat
  decisionLevel :: nat
  ok :: bool
  conf :: SolverConf
  xorclauses :: "Xor list"
  gmatrices :: "EGaussian list"
  gqueuedata :: nat
  seen :: "nat \<Rightarrow> nat"
  clash_decision_vars :: "nat set"
  attached :: "Xor list option"

text \<open>
  Operations of other components, not part of the sources, taken as parameters:
  the cleaning and combining of the constraints (\<open>xor_together_xors\<close> returns its
  success flag with the rewritten list), the status that attaching a constraint list
  leaves, the three variable translations, the assignment of an internal variable, and
  \<open>std::sort\<close> with the comparator \<open>mysorter\<close> of matrixfinder.h.
\<close>

record Extern =
  clean_xor_clauses :: "Xor list \<Rightarrow> Xor list"
  xor_together_xors :: "Xor list \<Rightarrow> bool \<times> Xor list"
  attach_status :: "Xor list \<Rightarrow> bool"
  map_to_with_bva :: "nat \<Rightarrow> nat"
  get_var_replaced_with_outer :: "nat \<Rightarrow> nat"
  map_outer_to_inter :: "nat \<Rightarrow> nat"
  var_value :: "nat \<Rightarrow> lbool"
  sort_shapes :: "MatrixShape list \<Rightarrow> MatrixShape list"

text \<open>Modelled from the spec: detaching empties the active constraints into the working
  list, attaching re-inserts the working list as active constraints and reports whether
  the solver is still consistent.\<close>

definition detach_clear_xorclauses :: "Solver \<Rightarrow> Solver" where
  "detach_clear_xorclauses S = S\<lparr>attached := None\<rparr>"

definition attach_xorclauses :: "Extern \<Rightarrow> Solver \<Rightarrow> Solver" where
  "attach_xorclauses ext S =
     S\<lparr>attached := Some (xorclauses S), ok := attach_status ext (xorclauses S)\<rparr>"

definition set_clash_decision_vars :: "Solver \<Rightarrow> Solver" where
  "set_clash_decision_vars S =
     S\<lparr>clash_decision_vars := (\<Union>x\<in>set (xorclauses S). set (clash_vars x))\<rparr>"

subsection \<open>\<open>double\<close> values\<close>

text \<open>
  The source divides two counters converted to \<open>double\<close> and compares with \<open>0.6\<close>.
  Both counters are below \<open>2^32\<close>, so the exact quotient differs from \<open>3/5\<close> by at least
  \<open>1 / (5 * 2^32)\<close> or not at all, far more than the rounding of the division and of the
  literal: the comparison in \<open>double\<close> and the comparison of the exact quotient with
  \<open>6/10\<close> agree. A zero denominator gives \<open>NaN\<close> (numerator 0) or infinity.
\<close>

datatype double = NaN | PInf | Fin real

definition ddiv :: "nat \<Rightarrow> nat \<Rightarrow> double" where
  "ddiv a b = (if b = 0 then (if a = 0 then NaN else PInf) else Fin (real a / real b))"

definition ge_06 :: "double \<Rightarrow> bool" where
  "ge_06 d = (case d of NaN \<Rightarrow> False | PInf \<Rightarrow> True | Fin r \<Rightarrow> 6 / 10 \<le> r)"

subsection \<open>\<open>setup_matrices_attach_remaining_cls\<close>\<close>

text \<open>Lines 192-198. The conversion of \<open>size * 3\<close> from \<open>double\<close> to \<open>uint32_t\<close> is
  defined only below \<open>2^32\<close>.\<close>

definition raise_max_rows :: "SolverConf \<Rightarrow> SolverConf option" where
  "raise_max_rows cf =
     (case sampling_vars cf of
        None \<Rightarrow> Some cf
      | Some sv \<Rightarrow>
          if 2 ^ 32 \<le> length sv * 3 then None
          else let size_at_least = length sv * 3 in
            if max_matrix_rows (gaussconf cf) < size_at_least
            then Some (cf\<lparr>gaussconf := (gaussconf cf)\<lparr>max_matrix_rows := size_at_least\<rparr>\<rparr>)
            else Some cf)"

text \<open>\<open>reverseTable[i]\<close> on a \<open>std::map\<close>: a missing key reads as the empty vector.\<close>

definition members_of :: "MatrixFinder \<Rightarrow> nat \<Rightarrow> nat list" where
  "members_of mf i = (case reverseTable mf i of None \<Rightarrow> [] | Some l \<Rightarrow> l)"

text \<open>Lines 200-206.\<close>

definition init_shapes :: "MatrixFinder \<Rightarrow> MatrixShape list" where
  "init_shapes mf =
     map (\<lambda>i. (new_shape i)\<lparr>num := i, cols := length (members_of mf i)\<rparr>) [0..<matrix_no mf]"

text \<open>Lines 209-221. A non-trivial constraint without variables has no \<open>x[0]\<close>; a first
  variable outside \<open>table\<close> or without a component below \<open>matrix_no\<close> violates the index
  or the assertion.\<close>

fun distribute ::
  "nat option list \<Rightarrow> nat \<Rightarrow> Xor list \<Rightarrow> MatrixShape list \<Rightarrow> Xor list list \<Rightarrow>
   (MatrixShape list \<times> Xor list list) option" where
  "distribute tab mno [] matrix_shape xorsInMatrix = Some (matrix_shape, xorsInMatrix)"
| "distribute tab mno (x # xs) matrix_shape xorsInMatrix =
     (if trivial x then distribute tab mno xs matrix_shape xorsInMatrix
      else case vars x of
        [] \<Rightarrow> None
      | v0 # _ \<Rightarrow>
          if length tab \<le> v0 then None
          else case tab ! v0 of
            None \<Rightarrow> None
          | Some matrix \<Rightarrow>
              if \<not> matrix < mno \<or> length matrix_shape \<le> matrix
                 \<or> length xorsInMatrix \<le> matrix then None
              else distribute tab mno xs
                (matrix_shape[matrix := (matrix_shape ! matrix)
                   \<lparr>rows := rows (matrix_shape ! matrix) + 1,
                    sum_xor_sizes := sum_xor_sizes (matrix_shape ! matrix) + length (vars x)\<rparr>])
                (xorsInMatrix[matrix := xorsInMatrix ! matrix @ [x]]))"

text \<open>Lines 224-225.\<close>

definition set_density :: "MatrixShape \<Rightarrow> MatrixShape" where
  "set_density m =
     (if tot_size m > 0 then m\<lparr>density := real (sum_xor_sizes m) / real (tot_size m)\<rparr> else m)"

text \<open>Lines 200-225 together: the shapes and the constraints of every component.\<close>

definition matrix_shapes ::
  "MatrixFinder \<Rightarrow> Xor list \<Rightarrow> (MatrixShape list \<times> Xor list list) option" where
  "matrix_shapes mf xs =
     (case distribute (table mf) (matrix_no mf) xs (init_shapes mf)
             (replicate (matrix_no mf) []) of
        None \<Rightarrow> None
      | Some (matrix_shape, xorsInMatrix) \<Rightarrow> Some (map set_density matrix_shape, xorsInMatrix))"

text \<open>Lines 260-280: mark the members in \<open>seen\<close>, count, clear the marks.\<close>

fun mark_seen :: "(nat \<Rightarrow> nat) \<Rightarrow> nat list \<Rightarrow> nat \<Rightarrow> (nat \<Rightarrow> nat)" where
  "mark_seen sn [] b = sn"
| "mark_seen sn (int_var # vs) b = mark_seen (sn(int_var := b)) vs b"

fun count_sampling ::
  "Extern \<Rightarrow> nat \<Rightarrow> (nat \<Rightarrow> nat) \<Rightarrow> nat list \<Rightarrow> nat \<times> nat \<Rightarrow> nat \<times> nat" where
  "count_sampling ext nv sn [] (tot_sampling_vars, inside) = (tot_sampling_vars, inside)"
| "count_sampling ext nv sn (outside_var # vs) (tot_sampling_vars, inside) =
     (let outer_var = map_to_with_bva ext outside_var;
          outer_var' = get_var_replaced_with_outer ext outer_var;
          int_var = map_outer_to_inter ext outer_var'
      in count_sampling ext nv sn vs
           (tot_sampling_vars + 1,
            if var_value ext int_var \<noteq> l_Undef then inside + 1
            else if int_var < nv \<and> sn int_var \<noteq> 0 then inside + 1
            else inside))"

definition calc_ratio_sampling ::
  "Extern \<Rightarrow> Solver \<Rightarrow> nat list \<Rightarrow> nat list \<Rightarrow> double \<times> Solver" where
  "calc_ratio_sampling ext S members sv =
     (let sn = mark_seen (seen S) members 1;
          (tot_sampling_vars, inside) = count_sampling ext (nVars S) sn sv (0, 0);
          sn' = mark_seen sn members 0
      in (ddiv inside tot_sampling_vars, S\<lparr>seen := sn'\<rparr>))"

text \<open>The decision of lines 237-301, given the ratio computed in between.\<close>

definition use_matrix_decision :: "SolverConf \<Rightarrow> MatrixShape \<Rightarrow> nat \<Rightarrow> double \<Rightarrow> bool" where
  "use_matrix_decision cf m realMatrixNum ratio_sampling =
     (let gc = gaussconf cf;
          use1 = (if rows m > max_matrix_rows gc then False else True);
          use2 = (if use1 \<and> cols m > max_matrix_columns gc then False else use1);
          use3 = (if use2 \<and> rows m < min_matrix_rows gc then False else use2);
          use4 = (if use3 \<and> realMatrixNum \<ge> max_num_matrices gc then False else use3)
      in if rows m > min_matrix_rows gc then
           (case sampling_vars cf of
              Some sv \<Rightarrow> if ge_06 ratio_sampling then True else False
            | None \<Rightarrow> use4)
         else use4)"

text \<open>One iteration of the loop at lines 233-344.\<close>

definition admit_step ::
  "Extern \<Rightarrow> MatrixFinder \<Rightarrow> Xor list list \<Rightarrow> MatrixShape \<Rightarrow> Solver \<times> nat \<Rightarrow>
   (Solver \<times> nat) option" where
  "admit_step ext mf xorsInMatrix m st =
     (case st of (S, realMatrixNum) \<Rightarrow>
        let i = num m in
        if rows m = 0 then Some (S, realMatrixNum)
        else
          let (ratio_sampling, S1) =
                (case sampling_vars (conf S) of
                   None \<Rightarrow> (Fin 0, S)
                 | Some sv \<Rightarrow> calc_ratio_sampling ext S (members_of mf i) sv)
          in if length xorsInMatrix \<le> i then None
             else if use_matrix_decision (conf S) m realMatrixNum ratio_sampling then
               (let S2 = S1\<lparr>gmatrices := gmatrices S1 @ [EGaussian realMatrixNum (xorsInMatrix ! i)]\<rparr>;
                    S3 = S2\<lparr>gqueuedata := length (gmatrices S2)\<rparr>
                in if length (gmatrices S3) = realMatrixNum + 1
                   then Some (S3, realMatrixNum + 1) else None)
             else
               Some (S1\<lparr>xorclauses := xorclauses S1 @
                          map (\<lambda>x. x\<lparr>in_matrix := 1000\<rparr>) (xorsInMatrix ! i)\<rparr>,
                     realMatrixNum))"

fun admission_loop ::
  "Extern \<Rightarrow> MatrixFinder \<Rightarrow> Xor list list \<Rightarrow> MatrixShape list \<Rightarrow> Solver \<times> nat \<Rightarrow>
   (Solver \<times> nat) option" where
  "admission_loop ext mf xorsInMatrix [] st = Some st"
| "admission_loop ext mf xorsInMatrix (m # ms) st =
     (case admit_step ext mf xorsInMatrix m st of
        None \<Rightarrow> None
      | Some st' \<Rightarrow> admission_loop ext mf xorsInMatrix ms st')"

text \<open>The whole routine; the loop runs from the last sorted shape down to the first.\<close>

definition setup_matrices_attach_remaining_cls ::
  "Extern \<Rightarrow> MatrixFinder \<Rightarrow> Solver \<Rightarrow> (nat \<times> Solver) option" where
  "setup_matrices_attach_remaining_cls ext mf S0 =
     (case raise_max_rows (conf S0) of
        None \<Rightarrow> None
      | Some cf \<Rightarrow>
          let S = S0\<lparr>conf := cf\<rparr> in
          (case matrix_shapes mf (xorclauses S) of
             None \<Rightarrow> None
           | Some (matrix_shape, xorsInMatrix) \<Rightarrow>
               (case admission_loop ext mf xorsInMatrix (rev (sort_shapes ext matrix_shape))
                       (S\<lparr>xorclauses := []\<rparr>, 0) of
                  None \<Rightarrow> None
                | Some (S', realMatrixNum) \<Rightarrow> Some (realMatrixNum, attach_xorclauses ext S'))))"

subsection \<open>\<open>find_matrices\<close>\<close>

record Outcome =
  ret :: bool
  matrix_created :: bool
  finder :: MatrixFinder
  solver :: Solver

text \<open>The three early exits share their last two statements.\<close>

definition skip_matrices :: "Extern \<Rightarrow> MatrixFinder \<Rightarrow> Solver \<Rightarrow> bool \<Rightarrow> Outcome" where
  "skip_matrices ext mf S created =
     (let S' = attach_xorclauses ext (S\<lparr>gqueuedata := 0\<rparr>)
      in \<lparr>ret = ok S', matrix_created = created, finder = mf, solver = S'\<rparr>)"

definition find_matrices :: "Extern \<Rightarrow> Solver \<Rightarrow> Outcome option" where
  "find_matrices ext S0 =
     (if decisionLevel S0 = 0 \<and> ok S0 \<and> gmatrices S0 = [] then
        let S1 = detach_clear_xorclauses S0;
            matrix_created0 = True;
            mf = init_finder (nVars S1);
            (r, xs) = xor_together_xors ext (clean_xor_clauses ext (xorclauses S1));
            S2 = S1\<lparr>xorclauses := xs\<rparr>
        in if \<not> r then Some \<lparr>ret = False, matrix_created = matrix_created0, finder = mf, solver = S2\<rparr>
           else
             let S3 = set_clash_decision_vars S2; gc = gaussconf (conf S3) in
             if length (xorclauses S3) < min_gauss_xor_clauses gc
               then Some (skip_matrices ext mf S3 False)
             else if length (xorclauses S3) > max_gauss_xor_clauses gc
                     \<and> sampling_vars (conf S3) \<noteq> None
               then Some (skip_matrices ext mf S3 False)
             else if \<not> doMatrixFind gc
               then Some (skip_matrices ext mf S3 matrix_created0)
             else
               (case partition_loop mf (xorclauses S3) of
                  None \<Rightarrow> None
                | Some mf' \<Rightarrow>
                    (case setup_matrices_attach_remaining_cls ext mf' S3 of
                       None \<Rightarrow> None
                     | Some (numMatrixes, S4) \<Rightarrow>
                         Some \<lparr>ret = ok S4, matrix_created = matrix_created0,
                               finder = mf', solver = S4\<rparr>))
      else None)"

section \<open>Properties\<close>

subsection \<open>Notions used to state them\<close>

text \<open>Two variables are in the same component when \<open>table\<close> gives both the same defined
  component number.\<close>

definition same_component :: "MatrixFinder \<Rightarrow> nat \<Rightarrow> nat \<Rightarrow> bool" where
  "same_component mf u v \<longleftrightarrow>
     u < length (table mf) \<and> v < length (table mf) \<and>
     (\<exists>c. table mf ! u = Some c \<and> table mf ! v = Some c)"

text \<open>Two variables share a constraint; being connected by a chain of constraints that
  share variables is the transitive closure. A variable is connected to itself when it
  occurs in a constraint.\<close>

definition shares :: "Xor list \<Rightarrow> (nat \<times> nat) set" where
  "shares xs = {(u, v). \<exists>x\<in>set xs. u \<in> set (vars x) \<and> v \<in> set (vars x)}"

definition connected :: "Xor list \<Rightarrow> nat \<Rightarrow> nat \<Rightarrow> bool" where
  "connected xs u v \<longleftrightarrow> (u, v) \<in> (shares xs)\<^sup>+"

text \<open>\<open>table\<close> and \<open>reverseTable\<close> are inverse to each other, and no variable is a member
  of two components.\<close>

definition mutual_inverse :: "MatrixFinder \<Rightarrow> bool" where
  "mutual_inverse mf \<longleftrightarrow>
     (\<forall>v c. (v < length (table mf) \<and> table mf ! v = Some c) \<longleftrightarrow>
            (\<exists>l. reverseTable mf c = Some l \<and> v \<in> set l)) \<and>
     (\<forall>v c c' l l'. reverseTable mf c = Some l \<and> v \<in> set l \<and>
            reverseTable mf c' = Some l' \<and> v \<in> set l' \<longrightarrow> c = c')"

text \<open>The invariant of the partitioning loop over a table of \<open>n\<close> variables: the two
  tables agree and every live component number is below \<open>matrix_no\<close>.\<close>

definition finder_inv :: "nat \<Rightarrow> MatrixFinder \<Rightarrow> bool" where
  "finder_inv n mf \<longleftrightarrow>
     length (table mf) = n \<and>
     (\<forall>v c. v < n \<and> table mf ! v = Some c \<longrightarrow> (\<exists>l. reverseTable mf c = Some l \<and> v \<in> set l)) \<and>
     (\<forall>c l. reverseTable mf c = Some l \<longrightarrow>
        c < matrix_no mf \<and> (\<forall>v\<in>set l. v < n \<and> table mf ! v = Some c))"

text \<open>No member list holds a variable twice.\<close>

definition members_distinct :: "MatrixFinder \<Rightarrow> bool" where
  "members_distinct mf \<longleftrightarrow> (\<forall>c l. reverseTable mf c = Some l \<longrightarrow> distinct l)"

text \<open>The variables that a constraint pulls together: its own, and those already in a
  component with one of them.\<close>

definition touches :: "MatrixFinder \<Rightarrow> Xor \<Rightarrow> nat \<Rightarrow> bool" where
  "touches mf x u \<longleftrightarrow> u \<in> set (vars x) \<or> (\<exists>w\<in>set (vars x). same_component mf u w)"

text \<open>A constraint for the examples.\<close>

definition xor_of :: "nat list \<Rightarrow> Xor" where
  "xor_of vs = \<lparr>vars = vs, rhs = False, clash_vars = [], in_matrix = 0, trivial = False\<rparr>"

text \<open>The internal variable that an externally numbered sampling variable resolves to
  (lines 265-267).\<close>

definition int_var_of :: "Extern \<Rightarrow> nat \<Rightarrow> nat" where
  "int_var_of ext outside_var =
     map_outer_to_inter ext (get_var_replaced_with_outer ext (map_to_with_bva ext outside_var))"

text \<open>The tag that line 311 writes: not in any matrix.\<close>

definition tag_unused :: "Xor \<Rightarrow> Xor" where
  "tag_unused x = x\<lparr>in_matrix := 1000\<rparr>"

text \<open>The first variable of a constraint has a component below \<open>matrix_no\<close>: what line
  214 and the assertion after it need.\<close>

definition assigned :: "MatrixFinder \<Rightarrow> Xor \<Rightarrow> bool" where
  "assigned mf x \<longleftrightarrow>
     (case vars x of
        [] \<Rightarrow> False
      | v0 # _ \<Rightarrow> v0 < length (table mf) \<and> (\<exists>c<matrix_no mf. table mf ! v0 = Some c))"

text \<open>The non-trivial constraints whose first variable maps to component \<open>i\<close>.\<close>

definition component_rows :: "MatrixFinder \<Rightarrow> nat \<Rightarrow> Xor list \<Rightarrow> Xor list" where
  "component_rows mf i xs =
     filter (\<lambda>x. \<not> trivial x \<and>
        (case vars x of [] \<Rightarrow> False | v0 # _ \<Rightarrow> v0 < length (table mf) \<and> table mf ! v0 = Some i)) xs"

subsection \<open>Concrete inputs\<close>

text \<open>Constraints, externals that change nothing (with a contradiction found, for
  \<open>ext_unsat\<close>), a configuration, a solver over six variables, and the finder and two
  shapes (of two and of four rows) of the components \<open>{1,2,3}\<close> and \<open>{4,5}\<close>.\<close>

definition xor_trivial :: Xor where
  "xor_trivial = \<lparr>vars = [], rhs = False, clash_vars = [], in_matrix = 0, trivial = True\<rparr>"

definition ext_id :: Extern where
  "ext_id = \<lparr>clean_xor_clauses = (\<lambda>xs. xs), xor_together_xors = (\<lambda>xs. (True, xs)),
     attach_status = (\<lambda>xs. True), map_to_with_bva = (\<lambda>v. v),
     get_var_replaced_with_outer = (\<lambda>v. v), map_outer_to_inter = (\<lambda>v. v),
     var_value = (\<lambda>v. l_Undef), sort_shapes = sort_key sum_xor_sizes\<rparr>"

definition ext_unsat :: Extern where
  "ext_unsat = ext_id\<lparr>xor_together_xors := (\<lambda>xs. (False, xs))\<rparr>"

definition conf_default :: GaussConf where
  "conf_default = \<lparr>min_gauss_xor_clauses = 1, max_gauss_xor_clauses = 1000,
     doMatrixFind = True, max_matrix_rows = 100, max_matrix_columns = 100,
     min_matrix_rows = 1, max_num_matrices = 10\<rparr>"

definition solver_of :: "Xor list \<Rightarrow> nat list option \<Rightarrow> GaussConf \<Rightarrow> Solver" where
  "solver_of xs sv gc = \<lparr>nVars = 6, decisionLevel = 0, ok = True,
     conf = \<lparr>gaussconf = gc, sampling_vars = sv\<rparr>, xorclauses = xs, gmatrices = [],
     gqueuedata = 0, seen = (\<lambda>v. 0), clash_decision_vars = {}, attached = Some xs\<rparr>"

definition finder_123_45 :: MatrixFinder where
  "finder_123_45 = \<lparr>table = [None, Some 0, Some 0, Some 0, Some 1, Some 1],
     reverseTable = [0 \<mapsto> [1, 2, 3], 1 \<mapsto> [4, 5]], matrix_no = 2\<rparr>"

definition shape_123 :: MatrixShape where
  "shape_123 = \<lparr>num = 0, rows = 2, cols = 3, sum_xor_sizes = 4, density = 2 / 3\<rparr>"

definition shape_1234 :: MatrixShape where
  "shape_1234 = \<lparr>num = 0, rows = 4, cols = 3, sum_xor_sizes = 9, density = 3 / 4\<rparr>"

section \<open>Proofs\<close>

subsection \<open>The helpers of the partitioning loop\<close>

lemma belong_loop_char:
  "\<forall>v\<in>set vs. v < length tab \<Longrightarrow>
   belong_loop tab cn vs =
     Some (\<exists>c. (cn = None \<or> cn = Some c) \<and> (\<forall>v\<in>set vs. tab ! v = Some c))"
proof (induction vs arbitrary: cn)
  case Nil
  then show ?case by auto
next
  case (Cons v vs)
  then have v: "v < length tab" and vs: "\<forall>v\<in>set vs. v < length tab" by simp_all
  note IH = Cons.IH [OF vs]
  show ?case
  proof (cases "tab ! v")
    case None
    with v show ?thesis by (simp add: leD)
  next
    case (Some c)
    show ?thesis
    proof (cases cn)
      case None
      have "belong_loop tab cn (v # vs) = belong_loop tab (Some c) vs"
        using v Some None by (simp add: leD)
      then show ?thesis using IH [of "Some c"] Some None by auto
    next
      case (Some c')
      show ?thesis
      proof (cases "c' = c")
        case True
        have "belong_loop tab cn (v # vs) = belong_loop tab cn vs"
          using v \<open>tab ! v = Some c\<close> Some True by (simp add: leD)
        then show ?thesis using IH [of cn] \<open>tab ! v = Some c\<close> Some True by auto
      next
        case False
        then show ?thesis using v \<open>tab ! v = Some c\<close> Some by (auto simp: leD)
      qed
    qed
  qed
qed
lemma set_set_insert: "set (set_insert c ds) = insert c (set ds)"
  by (induction ds) auto

lemma sorted_set_insert: "sorted_wrt (<) ds \<Longrightarrow> sorted_wrt (<) (set_insert c ds)"
  by (induction ds) (auto simp: set_set_insert)

lemma scan_vars_char:
  "\<forall>v\<in>set vs. v < length tab \<Longrightarrow>
   \<exists>tm. scan_vars tab vs tm0 ns0 = Some (tm, ns0 @ filter (\<lambda>v. tab ! v = None) vs) \<and>
        set tm = set tm0 \<union> {c. \<exists>v\<in>set vs. tab ! v = Some c} \<and>
        (sorted_wrt (<) tm0 \<longrightarrow> sorted_wrt (<) tm)"
proof (induction vs arbitrary: tm0 ns0)
  case Nil
  then show ?case by simp
next
  case (Cons v vs)
  show ?case
  proof (cases "tab ! v")
    case None
    with Cons.prems Cons.IH [of tm0 "ns0 @ [v]"] show ?thesis
      by (auto simp: leD)
  next
    case (Some c)
    with Cons.prems Cons.IH [of "set_insert c tm0" ns0] show ?thesis
      by (auto simp: leD set_set_insert sorted_set_insert)
  qed
qed

lemma absorb_char:
  "\<forall>e\<in>set es. e < length tab \<Longrightarrow>
   \<exists>tab'. absorb tab ms into es = Some (tab', ms @ es) \<and> length tab' = length tab \<and>
     (\<forall>v<length tab. tab' ! v = (if v \<in> set es then Some into else tab ! v))"
proof (induction es arbitrary: tab ms)
  case Nil
  then show ?case by simp
next
  case (Cons e es)
  from Cons.prems have "\<forall>e'\<in>set es. e' < length (tab[e := Some into])" by simp
  from Cons.IH [OF this, of "ms @ [e]"] Cons.prems show ?case
    by (auto simp: leD nth_list_update)
qed

lemma assign_all_char:
  "\<forall>e\<in>set es. e < length tab \<Longrightarrow>
   \<exists>tab'. assign_all tab c es = Some tab' \<and> length tab' = length tab \<and>
     (\<forall>v<length tab. tab' ! v = (if v \<in> set es then Some c else tab ! v))"
proof (induction es arbitrary: tab)
  case Nil
  then show ?case by simp
next
  case (Cons e es)
  from Cons.prems have "\<forall>e'\<in>set es. e' < length (tab[e := Some c])" by simp
  from Cons.IH [OF this] Cons.prems show ?case
    by (auto simp: leD nth_list_update)
qed

lemma merge_sets_char:
  "merge_sets rt cs ns = (ns', rt') \<Longrightarrow>
   set ns' = set ns \<union> {v. \<exists>c l. c \<in> set cs \<and> rt c = Some l \<and> v \<in> set l} \<and>
   rt' = (\<lambda>c. if c \<in> set cs then None else rt c)"
proof (induction cs arbitrary: rt ns)
  case Nil
  then show ?case by auto
next
  case (Cons c cs)
  let ?l = "case rt c of None \<Rightarrow> [] | Some l \<Rightarrow> l"
  let ?A = "{v. \<exists>d l. d \<in> set cs \<and> (rt(c := None)) d = Some l \<and> v \<in> set l}"
  let ?B = "{v. \<exists>d l. d \<in> set (c # cs) \<and> rt d = Some l \<and> v \<in> set l}"
  from Cons.prems have m: "merge_sets (rt(c := None)) cs (ns @ ?l) = (ns', rt')"
    by simp
  from Cons.IH [OF m] have s: "set ns' = set (ns @ ?l) \<union> ?A"
    and r: "rt' = (\<lambda>d. if d \<in> set cs then None else (rt(c := None)) d)"
    by blast+
  have "set ?l \<union> ?A = ?B"
  proof (intro set_eqI iffI)
    fix v assume "v \<in> set ?l \<union> ?A"
    then consider "v \<in> set ?l" | "v \<in> ?A" by blast
    then show "v \<in> ?B"
    proof cases
      case 1
      then obtain l where "rt c = Some l" "v \<in> set l" by (cases "rt c") auto
      then show ?thesis by auto
    next
      case 2
      then obtain d l where "d \<in> set cs" "(rt(c := None)) d = Some l" "v \<in> set l" by blast
      moreover from this have "rt d = Some l" by (simp split: if_splits)
      ultimately show ?thesis by auto
    qed
  next
    fix v assume "v \<in> ?B"
    then obtain d l where d: "d \<in> set (c # cs)" "rt d = Some l" "v \<in> set l" by blast
    show "v \<in> set ?l \<union> ?A"
    proof (cases "d = c")
      case True
      with d show ?thesis by simp
    next
      case False
      with d have "d \<in> set cs" "(rt(c := None)) d = Some l" by simp_all
      with d(3) show ?thesis by blast
    qed
  qed
  then have X: "set (ns @ ?l) \<union> ?A = set ns \<union> ?B"
    by (simp only: set_append Un_assoc)
  have Y: "(\<lambda>d. if d \<in> set cs then None else (rt(c := None)) d) = (\<lambda>d. if d \<in> set (c # cs) then None else rt d)"
    by auto
  from s X have "set ns' = set ns \<union> ?B" by (rule trans)
  moreover from r Y have "rt' = (\<lambda>d. if d \<in> set (c # cs) then None else rt d)" by (rule trans)
  ultimately show ?case by (rule conjI)
qed

subsection \<open>One step of the partitioning loop\<close>

lemma relabel_char:
  assumes inv: "finder_inv n mf"
    and rng: "\<forall>v\<in>set (vars x). v < n"
    and len: "length tab' = n"
    and tab': "\<forall>v<n. tab' ! v = (if touches mf x v then Some k else table mf ! v)"
    and fresh: "\<forall>v<n. \<not> touches mf x v \<longrightarrow> table mf ! v \<noteq> Some k"
    and rtk: "rt' k = Some L" "set L = {u. touches mf x u}"
    and rto: "\<forall>c. c \<noteq> k \<longrightarrow> rt' c = (if \<exists>v\<in>set (vars x). table mf ! v = Some c then None else reverseTable mf c)"
    and mno: "k < m'" "matrix_no mf \<le> m'"
  shows "finder_inv n \<lparr>table = tab', reverseTable = rt', matrix_no = m'\<rparr> \<and>
     (\<forall>u v. same_component \<lparr>table = tab', reverseTable = rt', matrix_no = m'\<rparr> u v \<longleftrightarrow>
         same_component mf u v \<or> (touches mf x u \<and> touches mf x v))"
proof -
  let ?tab = "table mf" and ?rt = "reverseTable mf"
  have L: "length ?tab = n" using inv by (simp add: finder_inv_def)
  have tr: "\<And>u. touches mf x u \<Longrightarrow> u < n"
    using rng L by (auto simp: touches_def same_component_def)
  have t_same: "\<And>u v. touches mf x u \<Longrightarrow> same_component mf u v \<Longrightarrow> touches mf x v"
    unfolding touches_def same_component_def by metis
  have i2: "\<And>v c. v < n \<Longrightarrow> ?tab ! v = Some c \<Longrightarrow> \<exists>l. ?rt c = Some l \<and> v \<in> set l"
    using inv unfolding finder_inv_def by blast
  have i3: "\<And>c l. ?rt c = Some l \<Longrightarrow> c < matrix_no mf"
    and i4: "\<And>c l v. ?rt c = Some l \<Longrightarrow> v \<in> set l \<Longrightarrow> v < n \<and> ?tab ! v = Some c"
    using inv unfolding finder_inv_def by blast+
  have merged: "\<And>v c w. v < n \<Longrightarrow> ?tab ! v = Some c \<Longrightarrow> w \<in> set (vars x) \<Longrightarrow> ?tab ! w = Some c \<Longrightarrow> touches mf x v"
    using rng L unfolding touches_def same_component_def by auto
  have A: "\<forall>v c. v < n \<and> tab' ! v = Some c \<longrightarrow> (\<exists>l. rt' c = Some l \<and> v \<in> set l)"
  proof (intro allI impI, elim conjE)
    fix v c assume v: "v < n" and c: "tab' ! v = Some c"
    show "\<exists>l. rt' c = Some l \<and> v \<in> set l"
    proof (cases "touches mf x v")
      case True
      with tab' v c have "c = k" by simp
      with rtk True show ?thesis by simp
    next
      case False
      with tab' v c have tc: "?tab ! v = Some c" by simp
      with fresh v False have ck: "c \<noteq> k" by auto
      from merged [OF v tc] False have "\<not> (\<exists>w\<in>set (vars x). ?tab ! w = Some c)" by blast
      with rto ck have "rt' c = ?rt c" by simp
      with i2 [OF v tc] show ?thesis by simp
    qed
  qed
  have B: "\<forall>c l. rt' c = Some l \<longrightarrow> c < m' \<and> (\<forall>v\<in>set l. v < n \<and> tab' ! v = Some c)"
  proof (intro allI impI)
    fix c l assume r: "rt' c = Some l"
    show "c < m' \<and> (\<forall>v\<in>set l. v < n \<and> tab' ! v = Some c)"
    proof (cases "c = k")
      case True
      with r rtk have "set l = {u. touches mf x u}" by simp
      with True mno tr tab' show ?thesis by auto
    next
      case False
      with rto r have nm: "\<not> (\<exists>w\<in>set (vars x). ?tab ! w = Some c)" and rc: "?rt c = Some l"
        by (auto split: if_splits)
      have "v < n \<and> tab' ! v = Some c" if "v \<in> set l" for v
      proof -
        from i4 [OF rc that] have v: "v < n" "?tab ! v = Some c" by simp_all
        have "\<not> touches mf x v"
          using nm v L unfolding touches_def same_component_def by auto
        with tab' v show ?thesis by simp
      qed
      with i3 [OF rc] mno show ?thesis by auto
    qed
  qed
  have C: "same_component \<lparr>table = tab', reverseTable = rt', matrix_no = m'\<rparr> u v \<longleftrightarrow>
         same_component mf u v \<or> (touches mf x u \<and> touches mf x v)" for u v
  proof (cases "u < n \<and> v < n")
    case False
    then show ?thesis using tr L len by (auto simp: same_component_def)
  next
    case True
    then have u: "u < n" and v: "v < n" by simp_all
    show ?thesis
    proof (cases "touches mf x u")
      case tu: True
      show ?thesis
      proof (cases "touches mf x v")
        case True
        with tu tab' u v len show ?thesis by (simp add: same_component_def)
      next
        case False
        with t_same tu have "\<not> same_component mf u v" by blast
        moreover have "\<not> same_component \<lparr>table = tab', reverseTable = rt', matrix_no = m'\<rparr> u v"
          using tab' u v tu False fresh by (auto simp: same_component_def)
        ultimately show ?thesis using False by simp
      qed
    next
      case fu: False
      show ?thesis
      proof (cases "touches mf x v")
        case True
        have "\<not> same_component mf u v"
          using t_same [OF True, of u] fu by (auto simp: same_component_def)
        moreover have "\<not> same_component \<lparr>table = tab', reverseTable = rt', matrix_no = m'\<rparr> u v"
          using tab' u v fu True fresh by (auto simp: same_component_def)
        ultimately show ?thesis using fu by simp
      next
        case False
        with fu tab' u v len L show ?thesis by (simp add: same_component_def)
      qed
    qed
  qed
  from A B C len show ?thesis by (simp add: finder_inv_def)
qed


lemma case_not_single:
  "\<forall>into. tm \<noteq> [into] \<Longrightarrow> (case tm of [into] \<Rightarrow> A into | _ \<Rightarrow> B) = B"
  by (cases tm) (simp_all split: list.splits)

lemma partition_step_char:
  assumes inv: "finder_inv n mf" and rng: "\<forall>v\<in>set (vars x). v < n"
  shows "\<exists>mf'. partition_step mf x = Some mf' \<and> finder_inv n mf' \<and>
     (\<forall>u v. same_component mf' u v \<longleftrightarrow>
        same_component mf u v \<or> (touches mf x u \<and> touches mf x v))"
proof -
  let ?tab = "table mf" and ?rt = "reverseTable mf" and ?V = "set (vars x)"
  have L: "length ?tab = n" using inv by (simp add: finder_inv_def)
  have rng': "\<forall>v\<in>?V. v < length ?tab" using rng L by simp
  have i2: "\<And>v c. v < n \<Longrightarrow> ?tab ! v = Some c \<Longrightarrow> \<exists>l. ?rt c = Some l \<and> v \<in> set l"
    using inv unfolding finder_inv_def by blast
  have i3: "\<And>c l. ?rt c = Some l \<Longrightarrow> c < matrix_no mf"
    and i4: "\<And>c l v. ?rt c = Some l \<Longrightarrow> v \<in> set l \<Longrightarrow> v < n \<and> ?tab ! v = Some c"
    using inv unfolding finder_inv_def by blast+
  have bl: "belong_same_matrix mf x = Some (\<exists>c. \<forall>v\<in>?V. ?tab ! v = Some c)"
    using belong_loop_char [OF rng', of None] by (simp add: belong_same_matrix_def)
  show ?thesis
  proof (cases "\<exists>c. \<forall>v\<in>?V. ?tab ! v = Some c")
    case True
    then have ps: "partition_step mf x = Some mf"
      by (simp add: partition_step_def bl)
    from True obtain c where c: "\<forall>v\<in>?V. ?tab ! v = Some c" ..
    have "same_component mf u v" if "touches mf x u" "touches mf x v" for u v
    proof -
      have "w < n \<and> ?tab ! w = Some c" if "touches mf x w" for w
        using that c rng L unfolding touches_def same_component_def by auto
      from this [OF that(1)] this [OF that(2)] L show ?thesis
        by (simp add: same_component_def)
    qed
    with ps inv show ?thesis by auto
  next
    case False
    with bl have bl': "belong_same_matrix mf x = Some False" by simp
    let ?ns = "filter (\<lambda>v. ?tab ! v = None) (vars x)"
    obtain tm where sc: "scan_vars ?tab (vars x) [] [] = Some (tm, ?ns)"
      and tmset: "set tm = {c. \<exists>v\<in>?V. ?tab ! v = Some c}"
      using scan_vars_char [OF rng', of "[]" "[]"] by auto
    have nsV: "\<And>u. u \<in> set ?ns \<longleftrightarrow> u \<in> ?V \<and> ?tab ! u = None" by auto
    have touch1: "touches mf x u \<longleftrightarrow>
        u \<in> set ?ns \<or> (u < n \<and> (\<exists>c\<in>set tm. ?tab ! u = Some c))" for u
    proof
      assume "touches mf x u"
      then consider "u \<in> ?V" | w where "w \<in> ?V" "same_component mf u w"
        unfolding touches_def by blast
      then show "u \<in> set ?ns \<or> (u < n \<and> (\<exists>c\<in>set tm. ?tab ! u = Some c))"
      proof cases
        case 1
        with rng tmset show ?thesis by (cases "?tab ! u") auto
      next
        case 2
        with tmset L show ?thesis by (auto simp: same_component_def)
      qed
    next
      assume "u \<in> set ?ns \<or> (u < n \<and> (\<exists>c\<in>set tm. ?tab ! u = Some c))"
      then show "touches mf x u"
      proof
        assume "u \<in> set ?ns"
        then show ?thesis by (simp add: touches_def)
      next
        assume a: "u < n \<and> (\<exists>c\<in>set tm. ?tab ! u = Some c)"
        then obtain c where "c \<in> set tm" "?tab ! u = Some c" by blast
        with tmset obtain w where "w \<in> ?V" "?tab ! w = Some c" by auto
        with a \<open>?tab ! u = Some c\<close> rng L show ?thesis
          by (auto simp: touches_def same_component_def)
      qed
    qed
    show ?thesis
    proof (cases "\<exists>into. tm = [into]")
      case True
      then obtain into where tm: "tm = [into]" ..
      from tmset tm obtain w where w: "w \<in> ?V" "?tab ! w = Some into" by auto
      with rng i2 obtain members where mem: "?rt into = Some members" by blast
      have memset: "set members = {u. u < n \<and> ?tab ! u = Some into}"
      proof (intro set_eqI iffI)
        fix u assume "u \<in> set members"
        with i4 [OF mem] show "u \<in> {u. u < n \<and> ?tab ! u = Some into}" by simp
      next
        fix u assume "u \<in> {u. u < n \<and> ?tab ! u = Some into}"
        then have "u < n" "?tab ! u = Some into" by simp_all
        from i2 [OF this] mem show "u \<in> set members" by simp
      qed
      obtain tab' where ab: "absorb ?tab members into ?ns = Some (tab', members @ ?ns)"
        and len': "length tab' = n"
        and tab': "\<forall>v<n. tab' ! v = (if v \<in> set ?ns then Some into else ?tab ! v)"
        using absorb_char [of ?ns ?tab members into] rng' L by auto
      let ?rt' = "?rt(into \<mapsto> members @ ?ns)"
      let ?mf' = "\<lparr>table = tab', reverseTable = ?rt', matrix_no = matrix_no mf\<rparr>"
      have "partition_step mf x = Some (mf\<lparr>table := tab', reverseTable := ?rt'\<rparr>)"
        using sc tm mem ab by (simp add: partition_step_def bl')
      then have ps: "partition_step mf x = Some ?mf'" by simp
      have t2: "\<forall>v<n. tab' ! v = (if touches mf x v then Some into else ?tab ! v)"
        using tab' touch1 tm by auto
      have fresh: "\<forall>v<n. \<not> touches mf x v \<longrightarrow> ?tab ! v \<noteq> Some into"
        using touch1 tm by auto
      have rtk: "?rt' into = Some (members @ ?ns)" by simp
      have Lset: "set (members @ ?ns) = {u. touches mf x u}"
        using memset touch1 tm by auto
      have rto: "\<forall>c. c \<noteq> into \<longrightarrow> ?rt' c =
          (if \<exists>v\<in>?V. ?tab ! v = Some c then None else ?rt c)"
        using tmset tm by auto
      from relabel_char [OF inv rng len' t2 fresh rtk Lset rto i3 [OF mem] order_refl] ps
      show ?thesis by blast
    next
      case nsingle: False
      obtain ns' rt' where mg: "merge_sets ?rt tm ?ns = (ns', rt')" by force
      from merge_sets_char [OF mg]
      have ns': "set ns' = set ?ns \<union> {v. \<exists>c l. c \<in> set tm \<and> ?rt c = Some l \<and> v \<in> set l}"
        and rt': "rt' = (\<lambda>c. if c \<in> set tm then None else ?rt c)" by simp_all
      have touch2: "touches mf x u \<longleftrightarrow> u \<in> set ns'" for u
        unfolding touch1 ns' using i2 i4 by blast
      have rng_ns: "\<forall>e\<in>set ns'. e < length ?tab"
        using ns' rng i4 L by auto
      let ?k = "matrix_no mf"
      obtain tab' where asg: "assign_all ?tab ?k ns' = Some tab'"
        and len': "length tab' = n"
        and tab': "\<forall>v<n. tab' ! v = (if v \<in> set ns' then Some ?k else ?tab ! v)"
        using assign_all_char [OF rng_ns, of ?k] L by auto
      let ?rt' = "rt'(?k \<mapsto> ns')"
      let ?mf' = "\<lparr>table = tab', reverseTable = ?rt', matrix_no = ?k + 1\<rparr>"
      have ps: "partition_step mf x = Some ?mf'"
        using nsingle mg asg
        by (simp add: partition_step_def bl' sc case_not_single)
      have t2: "\<forall>v<n. tab' ! v = (if touches mf x v then Some ?k else ?tab ! v)"
        using tab' touch2 by simp
      have fresh: "\<forall>v<n. \<not> touches mf x v \<longrightarrow> ?tab ! v \<noteq> Some ?k"
        using i2 i3 by (metis less_irrefl)
      have rtk: "?rt' ?k = Some ns'" by simp
      have Lset: "set ns' = {u. touches mf x u}" using touch2 by auto
      have rto: "\<forall>c. c \<noteq> ?k \<longrightarrow> ?rt' c =
          (if \<exists>v\<in>?V. ?tab ! v = Some c then None else ?rt c)"
        using tmset rt' by auto
      have "?k < ?k + 1" "?k \<le> ?k + 1" by simp_all
      from relabel_char [OF inv rng len' t2 fresh rtk Lset rto this] ps
      show ?thesis by blast
    qed
  qed
qed

subsection \<open>Connectivity\<close>

lemma sym_shares: "sym (shares xs)"
  by (auto simp: shares_def sym_def)

lemma shares_snoc: "shares (xs @ [x]) = shares xs \<union> set (vars x) \<times> set (vars x)"
  by (auto simp: shares_def)

lemma connect_step:
  assumes "sym A"
  shows "(A \<union> V \<times> V)\<^sup>+ =
     A\<^sup>+ \<union> {(u, v). (u \<in> V \<or> (\<exists>w\<in>V. (u, w) \<in> A\<^sup>+)) \<and> (v \<in> V \<or> (\<exists>w\<in>V. (v, w) \<in> A\<^sup>+))}"
    (is "?N\<^sup>+ = ?R \<union> ?T")
proof
  have symR: "sym ?R" using assms by (rule sym_trancl)
  have tr: "trans (?R \<union> ?T)"
  proof (rule transI)
    fix a b c assume ab: "(a, b) \<in> ?R \<union> ?T" and bc: "(b, c) \<in> ?R \<union> ?T"
    show "(a, c) \<in> ?R \<union> ?T"
    proof (cases "(a, b) \<in> ?R")
      case abR: True
      show ?thesis
      proof (cases "(b, c) \<in> ?R")
        case True
        with abR show ?thesis by (meson UnI1 trancl_trans)
      next
        case False
        with bc have T: "(b, c) \<in> ?T" by blast
        then have "a \<in> V \<or> (\<exists>w\<in>V. (a, w) \<in> ?R)"
          using abR by (auto intro: trancl_trans)
        with T show ?thesis by auto
      qed
    next
      case False
      with ab have T: "(a, b) \<in> ?T" by blast
      show ?thesis
      proof (cases "(b, c) \<in> ?R")
        case True
        then have cb: "(c, b) \<in> ?R" using symR by (meson symD)
        from T have "c \<in> V \<or> (\<exists>w\<in>V. (c, w) \<in> ?R)"
          using cb by (auto intro: trancl_trans)
        with T show ?thesis by auto
      next
        case False
        with bc have "(b, c) \<in> ?T" by blast
        with T show ?thesis by auto
      qed
    qed
  qed
  have "?N \<subseteq> ?R \<union> ?T" by auto
  then have "?N\<^sup>+ \<subseteq> (?R \<union> ?T)\<^sup>+" by (rule trancl_mono_subset)
  also have "(?R \<union> ?T)\<^sup>+ = ?R \<union> ?T" using tr by (rule trancl_id)
  finally show "?N\<^sup>+ \<subseteq> ?R \<union> ?T" .
next
  have symR: "sym ?R" using assms by (rule sym_trancl)
  have sub: "?R \<subseteq> ?N\<^sup>+" by (rule trancl_mono_subset) simp
  have reach: "\<exists>w\<in>V. (u, w) \<in> ?N\<^sup>*" if "u \<in> V \<or> (\<exists>w\<in>V. (u, w) \<in> ?R)" for u
    using that sub by (meson rtrancl.rtrancl_refl subsetD trancl_into_rtrancl)
  have rback: "\<exists>w\<in>V. (w, u) \<in> ?N\<^sup>*" if "u \<in> V \<or> (\<exists>w\<in>V. (u, w) \<in> ?R)" for u
    using that sub symR by (meson rtrancl.rtrancl_refl subsetD trancl_into_rtrancl symD)
  have "?T \<subseteq> ?N\<^sup>+"
  proof
    fix p assume "p \<in> ?T"
    then obtain u v where p: "p = (u, v)"
      and u: "u \<in> V \<or> (\<exists>w\<in>V. (u, w) \<in> ?R)" and v: "v \<in> V \<or> (\<exists>w\<in>V. (v, w) \<in> ?R)"
      by auto
    from reach [OF u] obtain w where w: "w \<in> V" "(u, w) \<in> ?N\<^sup>*" by blast
    from rback [OF v] obtain w' where w': "w' \<in> V" "(w', v) \<in> ?N\<^sup>*" by blast
    from w(1) w'(1) have "(w, w') \<in> ?N" by simp
    with w(2) have "(u, w') \<in> ?N\<^sup>+" by (rule rtrancl_into_trancl1)
    from this w'(2) have "(u, v) \<in> ?N\<^sup>+" by (rule trancl_rtrancl_trancl)
    with p show "p \<in> ?N\<^sup>+" by simp
  qed
  with sub show "?R \<union> ?T \<subseteq> ?N\<^sup>+" by blast
qed

lemma finder_inv_init: "finder_inv n (init_finder n)"
  by (simp add: finder_inv_def init_finder_def)

lemma same_component_init: "\<not> same_component (init_finder n) u v"
  by (simp add: same_component_def init_finder_def)

lemma connected_Nil: "\<not> connected [] u v"
  by (simp add: connected_def shares_def)

lemma partition_loop_char:
  assumes "finder_inv n mf"
    and "\<forall>x\<in>set xs. \<forall>v\<in>set (vars x). v < n"
    and "\<forall>u v. same_component mf u v \<longleftrightarrow> connected ds u v"
  shows "\<exists>mf'. partition_loop mf xs = Some mf' \<and> finder_inv n mf' \<and>
     (\<forall>u v. same_component mf' u v \<longleftrightarrow> connected (ds @ xs) u v)"
  using assms
proof (induction xs arbitrary: mf ds)
  case Nil
  then show ?case by simp
next
  case (Cons x xs)
  from Cons.prems(2) have rx: "\<forall>v\<in>set (vars x). v < n"
    and rxs: "\<forall>x\<in>set xs. \<forall>v\<in>set (vars x). v < n" by simp_all
  from partition_step_char [OF Cons.prems(1) rx] obtain mf1 where
    ps: "partition_step mf x = Some mf1" and inv1: "finder_inv n mf1"
    and same1: "\<forall>u v. same_component mf1 u v \<longleftrightarrow>
        same_component mf u v \<or> (touches mf x u \<and> touches mf x v)" by blast
  have "same_component mf1 u v \<longleftrightarrow> connected (ds @ [x]) u v" for u v
  proof -
    have "connected (ds @ [x]) u v \<longleftrightarrow>
      (u, v) \<in> (shares ds)\<^sup>+ \<union> {(u, v). (u \<in> set (vars x) \<or> (\<exists>w\<in>set (vars x). (u, w) \<in> (shares ds)\<^sup>+)) \<and>
          (v \<in> set (vars x) \<or> (\<exists>w\<in>set (vars x). (v, w) \<in> (shares ds)\<^sup>+))}"
      unfolding connected_def shares_snoc connect_step [OF sym_shares] ..
    also have "\<dots> \<longleftrightarrow> same_component mf u v \<or> (touches mf x u \<and> touches mf x v)"
      using Cons.prems(3) by (simp add: touches_def connected_def)
    finally show ?thesis using same1 by simp
  qed
  then have "\<forall>u v. same_component mf1 u v \<longleftrightarrow> connected (ds @ [x]) u v" by simp
  from Cons.IH [OF inv1 rxs this] ps show ?case by simp
qed

lemma finder_inv_mutual_inverse:
  assumes "finder_inv n mf"
  shows "mutual_inverse mf"
proof -
  have L: "length (table mf) = n"
    and i2: "\<And>v c. v < n \<Longrightarrow> table mf ! v = Some c \<Longrightarrow>
          \<exists>l. reverseTable mf c = Some l \<and> v \<in> set l"
    and i4: "\<And>c l v. reverseTable mf c = Some l \<Longrightarrow> v \<in> set l \<Longrightarrow>
          v < n \<and> table mf ! v = Some c"
    using assms unfolding finder_inv_def by blast+
  have A: "(v < length (table mf) \<and> table mf ! v = Some c) \<longleftrightarrow>
       (\<exists>l. reverseTable mf c = Some l \<and> v \<in> set l)" for v c
    using L i2 i4 by blast
  have B: "c = c'" if "reverseTable mf c = Some l" "v \<in> set l"
      "reverseTable mf c' = Some l'" "v \<in> set l'" for v c c' l l'
  proof -
    from i4 [OF that(1,2)] i4 [OF that(3,4)] have "Some c = Some c'" by simp
    then show ?thesis by simp
  qed
  show ?thesis unfolding mutual_inverse_def using A B by blast
qed


subsection \<open>The partition (C1, C9)\<close>

lemma partition_loop_append:
  "partition_loop mf (xs @ ys) =
     (case partition_loop mf xs of None \<Rightarrow> None | Some mf' \<Rightarrow> partition_loop mf' ys)"
  by (induction xs arbitrary: mf) (auto split: option.splits)

lemma partition_loop_from_init:
  assumes "\<forall>x\<in>set xs. \<forall>v\<in>set (vars x). v < n"
  shows "\<exists>mf. partition_loop (init_finder n) xs = Some mf \<and> finder_inv n mf \<and>
     (\<forall>u v. same_component mf u v \<longleftrightarrow> connected xs u v)"
  using partition_loop_char [OF finder_inv_init assms, of "[]"]
  by (simp add: same_component_init connected_Nil)

text \<open>
  Claim C1. Run on any sequence of constraints whose variables are variables of the
  solver, the partitioning loop ends, and in its final table two variables have the same
  defined component exactly when a chain of constraints sharing variables connects them.
  Run on any reordering of the sequence it ends with the same partition.
\<close>

theorem partition_correct:
  assumes "\<forall>x\<in>set xs. \<forall>v\<in>set (vars x). v < n" and "mset ys = mset xs"
  shows "\<exists>mf mf'. partition_loop (init_finder n) xs = Some mf \<and>
      partition_loop (init_finder n) ys = Some mf' \<and>
      (\<forall>u v. same_component mf u v \<longleftrightarrow> connected xs u v) \<and>
      (\<forall>u v. same_component mf' u v \<longleftrightarrow> same_component mf u v)"
proof -
  from assms(2) have s: "set ys = set xs" by (rule mset_eq_setD)
  with assms(1) have rys: "\<forall>x\<in>set ys. \<forall>v\<in>set (vars x). v < n" by simp
  from s have c: "connected ys = connected xs"
    by (simp add: connected_def shares_def fun_eq_iff)
  from partition_loop_from_init [OF assms(1)] obtain mf where
    mf: "partition_loop (init_finder n) xs = Some mf"
      "\<forall>u v. same_component mf u v \<longleftrightarrow> connected xs u v" by blast
  from partition_loop_from_init [OF rys] obtain mf' where
    mf': "partition_loop (init_finder n) ys = Some mf'"
      "\<forall>u v. same_component mf' u v \<longleftrightarrow> connected ys u v" by blast
  from mf mf' c show ?thesis by simp
qed

text \<open>The hypotheses of C1 at three constraints over six variables and a reordering.\<close>

theorem partition_correct_witness:
  "\<exists>mf mf'. partition_loop (init_finder 6) [xor_of [1, 2], xor_of [4, 5], xor_of [2, 3]] = Some mf \<and>
      partition_loop (init_finder 6) [xor_of [2, 3], xor_of [1, 2], xor_of [4, 5]] = Some mf' \<and>
      (\<forall>u v. same_component mf u v \<longleftrightarrow> connected [xor_of [1, 2], xor_of [4, 5], xor_of [2, 3]] u v) \<and>
      (\<forall>u v. same_component mf' u v \<longleftrightarrow> same_component mf u v)"
  by (rule partition_correct) (simp_all add: xor_of_def)

text \<open>
  Claim C9. After every number \<open>k\<close> of processed constraints the loop has reached a state
  (the one from which the rest of the run continues) in which \<open>table[v] = c\<close> holds exactly
  when \<open>v\<close> occurs in \<open>reverseTable[c]\<close>, and no variable occurs in the member lists of two
  live components.
\<close>

theorem tables_mutual_inverse:
  assumes "\<forall>x\<in>set xs. \<forall>v\<in>set (vars x). v < n" and "k \<le> length xs"
  shows "\<exists>mf. partition_loop (init_finder n) (take k xs) = Some mf \<and> mutual_inverse mf \<and>
      partition_loop (init_finder n) xs = partition_loop mf (drop k xs)"
proof -
  from assms(1) have "\<forall>x\<in>set (take k xs). \<forall>v\<in>set (vars x). v < n"
    by (meson in_set_takeD)
  from partition_loop_from_init [OF this] obtain mf where
    mf: "partition_loop (init_finder n) (take k xs) = Some mf" "finder_inv n mf" by blast
  have "partition_loop (init_finder n) (take k xs @ drop k xs) = partition_loop mf (drop k xs)"
    unfolding partition_loop_append using mf(1) by simp
  with mf finder_inv_mutual_inverse show ?thesis by auto
qed

text \<open>The hypotheses of C9 after two of three constraints.\<close>

theorem tables_mutual_inverse_witness:
  "\<exists>mf. partition_loop (init_finder 6) (take 2 [xor_of [1, 2], xor_of [4, 5], xor_of [2, 4]]) = Some mf \<and>
      mutual_inverse mf \<and>
      partition_loop (init_finder 6) [xor_of [1, 2], xor_of [4, 5], xor_of [2, 4]] =
        partition_loop mf (drop 2 [xor_of [1, 2], xor_of [4, 5], xor_of [2, 4]])"
  by (rule tables_mutual_inverse) (simp_all add: xor_of_def)

subsection \<open>The sampling ratio (C7)\<close>

lemma mark_seen_char: "mark_seen sn vs b = (\<lambda>v. if v \<in> set vs then b else sn v)"
  by (induction vs arbitrary: sn) (auto simp: fun_eq_iff)

lemma count_sampling_char:
  "count_sampling ext nv sn sv (t, k) =
     (t + length sv,
      k + length (filter (\<lambda>outside_var. var_value ext (int_var_of ext outside_var) \<noteq> l_Undef \<or>
             (int_var_of ext outside_var < nv \<and> sn (int_var_of ext outside_var) \<noteq> 0)) sv))"
  by (induction sv arbitrary: t k) (auto simp: int_var_of_def Let_def)

lemma calc_ratio_sampling_char:
  assumes "\<forall>v<nVars S. seen S v = 0"
    and "\<forall>v\<in>set (members_of mf i). v < nVars S"
    and "sv \<noteq> []"
  shows "calc_ratio_sampling ext S (members_of mf i) sv =
     (Fin (real (length (filter (\<lambda>outside_var.
               var_value ext (int_var_of ext outside_var) \<noteq> l_Undef \<or>
               int_var_of ext outside_var \<in> set (members_of mf i)) sv))
           / real (length sv)),
      S)"
proof -
  let ?ms = "members_of mf i"
  let ?sn = "mark_seen (seen S) ?ms 1"
  have restore: "mark_seen ?sn ?ms 0 = seen S"
    using assms(1,2) by (auto simp: mark_seen_char fun_eq_iff)
  have P: "(int_var_of ext v < nVars S \<and> ?sn (int_var_of ext v) \<noteq> 0) \<longleftrightarrow>
      int_var_of ext v \<in> set ?ms" for v
    using assms(1,2) by (auto simp: mark_seen_char)
  have "count_sampling ext (nVars S) ?sn sv (0, 0) =
      (length sv, length (filter (\<lambda>v. var_value ext (int_var_of ext v) \<noteq> l_Undef \<or>
               int_var_of ext v \<in> set ?ms) sv))"
    unfolding count_sampling_char P by simp
  with restore assms(3) show ?thesis
    by (simp add: calc_ratio_sampling_def ddiv_def)
qed

lemma calc_ratio_frame:
  "calc_ratio_sampling ext S ms sv = (r, S1) \<Longrightarrow> \<exists>sn. S1 = S\<lparr>seen := sn\<rparr>"
  by (auto simp: calc_ratio_sampling_def Let_def split: prod.splits)

text \<open>
  Claim C7. With the marking array clear on the solver's variables, as every use of it
  leaves it, and at least one sampling variable configured, the ratio computed for a
  component is the number of sampling variables whose internal variable (after the
  auxiliary-variable mapping and the replacement) has a value or is a member of the
  component, divided by the number of sampling variables; the marking array is clear
  again afterwards, so the same holds for the next component.
\<close>

theorem ratio_sampling_value:
  assumes "\<forall>v<nVars S. seen S v = 0"
    and "\<forall>v\<in>set (members_of mf i). v < nVars S"
    and "sv \<noteq> []"
  shows "calc_ratio_sampling ext S (members_of mf i) sv =
     (Fin (real (length (filter (\<lambda>outside_var.
               var_value ext (int_var_of ext outside_var) \<noteq> l_Undef \<or>
               int_var_of ext outside_var \<in> set (members_of mf i)) sv))
           / real (length sv)),
      S)"
  using assms by (rule calc_ratio_sampling_char)

text \<open>
  The hypotheses of C7 for the component \<open>{1,2,3}\<close> and the sampling variables 1 and 4.
\<close>

theorem ratio_sampling_value_witness:
  "calc_ratio_sampling ext_id (solver_of [] (Some [1, 4]) conf_default) (members_of finder_123_45 0) [1, 4]
     = (Fin (1 / 2), solver_of [] (Some [1, 4]) conf_default)"
  using ratio_sampling_value [of "solver_of [] (Some [1, 4]) conf_default" finder_123_45 0 "[1, 4]" ext_id]
  by (simp add: solver_of_def finder_123_45_def members_of_def int_var_of_def ext_id_def)

subsection \<open>Admission of one component (C3, C4)\<close>

lemma calc_ratio_sampling_empty:
  assumes "\<forall>v<nVars S. seen S v = 0"
    and "\<forall>v\<in>set (members_of mf i). v < nVars S"
  shows "calc_ratio_sampling ext S (members_of mf i) [] = (NaN, S)"
proof -
  have "mark_seen (mark_seen (seen S) (members_of mf i) 1) (members_of mf i) 0 = seen S"
    using assms by (auto simp: mark_seen_char fun_eq_iff)
  then show ?thesis by (simp add: calc_ratio_sampling_def ddiv_def)
qed

lemma Fin_reaches:
  "(Fin r = PInf \<or> (\<exists>q. Fin r = Fin q \<and> 6 / 10 \<le> q)) \<longleftrightarrow> 6 / 10 \<le> r"
  by auto

text \<open>
  Claim C3. For a component with more rows than \<open>min_matrix_rows\<close>, with sampling
  variables configured, the loop body accepts (appends the matrix built from the
  component's constraints) exactly when the sampling ratio it computed is a number that
  is at least 6/10 (or infinite), and rejects (appends the tagged constraints to the
  pool) when the ratio is a smaller number or \<open>NaN\<close>, whatever the limits on rows,
  columns and the number of matrices say.
\<close>

theorem sampling_override:
  assumes "sampling_vars (conf S) = Some sv"
    and "min_matrix_rows (gaussconf (conf S)) < rows m"
    and "num m < length xorsInMatrix"
    and "length (gmatrices S) = realMatrixNum"
  shows "admit_step ext mf xorsInMatrix m (S, realMatrixNum) =
     (case calc_ratio_sampling ext S (members_of mf (num m)) sv of
        (ratio_sampling, S1) \<Rightarrow>
          if ratio_sampling = PInf \<or> (\<exists>q. ratio_sampling = Fin q \<and> 6 / 10 \<le> q)
          then Some (S1\<lparr>gmatrices := gmatrices S @ [EGaussian realMatrixNum (xorsInMatrix ! num m)],
                        gqueuedata := realMatrixNum + 1\<rparr>, realMatrixNum + 1)
          else Some (S1\<lparr>xorclauses := xorclauses S @ map tag_unused (xorsInMatrix ! num m)\<rparr>,
                     realMatrixNum))"
proof -
  obtain r S1 where c: "calc_ratio_sampling ext S (members_of mf (num m)) sv = (r, S1)"
    by force
  from calc_ratio_frame [OF c] obtain sn where S1: "S1 = S\<lparr>seen := sn\<rparr>" ..
  from assms(2) have r0: "rows m \<noteq> 0" by simp
  have g: "ge_06 r \<longleftrightarrow> r = PInf \<or> (\<exists>q. r = Fin q \<and> 6 / 10 \<le> q)"
    by (cases r) (simp_all add: ge_06_def)
  have d: "use_matrix_decision (conf S) m realMatrixNum r \<longleftrightarrow>
      r = PInf \<or> (\<exists>q. r = Fin q \<and> 6 / 10 \<le> q)"
    using assms(1,2) g by (simp add: use_matrix_decision_def Let_def)
  show ?thesis
    using assms(1,3,4) r0 c S1 d
    by (simp add: admit_step_def Let_def tag_unused_def leD cong: map_cong)
qed

text \<open>
  The hypotheses of C3 in four states as the raising of the row limit leaves them: a
  component beyond \<open>max_matrix_rows\<close>, \<open>max_matrix_columns\<close> and \<open>max_num_matrices\<close>
  with ratio 1 is accepted; ratio 3/5 is accepted; a component within all limits with
  ratio 1/2 is rejected; with an empty sampling vector (\<open>NaN\<close>) it is rejected.
\<close>

theorem sampling_override_witness:
  "admit_step ext_id finder_123_45
      [[xor_of [1, 2], xor_of [2, 3], xor_of [1, 3], xor_of [1, 2, 3]], [xor_of [4, 5]]] shape_1234
      (solver_of [] (Some [1])
         (conf_default\<lparr>max_matrix_rows := 3, max_matrix_columns := 2, max_num_matrices := 0\<rparr>), 0) =
     Some ((solver_of [] (Some [1])
         (conf_default\<lparr>max_matrix_rows := 3, max_matrix_columns := 2, max_num_matrices := 0\<rparr>))
           \<lparr>gmatrices := [EGaussian 0 [xor_of [1, 2], xor_of [2, 3], xor_of [1, 3], xor_of [1, 2, 3]]],
             gqueuedata := 1\<rparr>, 1) \<and>
   admit_step ext_id finder_123_45 [[xor_of [1, 2], xor_of [2, 3]], [xor_of [4, 5]]] shape_123
      (solver_of [] (Some [1, 2, 3, 4, 5]) conf_default, 0) =
     Some ((solver_of [] (Some [1, 2, 3, 4, 5]) conf_default)
           \<lparr>gmatrices := [EGaussian 0 [xor_of [1, 2], xor_of [2, 3]]], gqueuedata := 1\<rparr>, 1) \<and>
   admit_step ext_id finder_123_45 [[xor_of [1, 2], xor_of [2, 3]], [xor_of [4, 5]]] shape_123
      (solver_of [] (Some [1, 4]) conf_default, 0) =
     Some ((solver_of [] (Some [1, 4]) conf_default)
           \<lparr>xorclauses := [tag_unused (xor_of [1, 2]), tag_unused (xor_of [2, 3])]\<rparr>, 0) \<and>
   admit_step ext_id finder_123_45 [[xor_of [1, 2], xor_of [2, 3]], [xor_of [4, 5]]] shape_123
      (solver_of [] (Some []) conf_default, 0) =
     Some ((solver_of [] (Some []) conf_default)
           \<lparr>xorclauses := [tag_unused (xor_of [1, 2]), tag_unused (xor_of [2, 3])]\<rparr>, 0)"
proof (intro conjI)
  let ?S = "solver_of [] (Some [1])
         (conf_default\<lparr>max_matrix_rows := 3, max_matrix_columns := 2, max_num_matrices := 0\<rparr>)"
  let ?xim = "[[xor_of [1, 2], xor_of [2, 3], xor_of [1, 3], xor_of [1, 2, 3]], [xor_of [4, 5]]]"
  have r: "calc_ratio_sampling ext_id ?S (members_of finder_123_45 (num shape_1234)) [1] = (Fin 1, ?S)"
    using calc_ratio_sampling_char [of ?S finder_123_45 0 "[1]" ext_id]
    by (simp add: solver_of_def finder_123_45_def members_of_def int_var_of_def ext_id_def shape_1234_def)
  have "sampling_vars (conf ?S) = Some [1]" "min_matrix_rows (gaussconf (conf ?S)) < rows shape_1234"
    "num shape_1234 < length ?xim" "length (gmatrices ?S) = 0"
    by (simp_all add: solver_of_def conf_default_def shape_1234_def)
  from sampling_override [OF this, of ext_id finder_123_45, unfolded r prod.case Fin_reaches]
  show "admit_step ext_id finder_123_45 ?xim shape_1234 (?S, 0) =
     Some (?S\<lparr>gmatrices := [EGaussian 0 [xor_of [1, 2], xor_of [2, 3], xor_of [1, 3], xor_of [1, 2, 3]]],
             gqueuedata := 1\<rparr>, 1)"
    by (simp add: shape_1234_def solver_of_def)
next
  let ?S = "solver_of [] (Some [1, 2, 3, 4, 5]) conf_default"
  let ?xim = "[[xor_of [1, 2], xor_of [2, 3]], [xor_of [4, 5]]]"
  have r: "calc_ratio_sampling ext_id ?S (members_of finder_123_45 (num shape_123)) [1, 2, 3, 4, 5]
      = (Fin (3 / 5), ?S)"
    using calc_ratio_sampling_char [of ?S finder_123_45 0 "[1, 2, 3, 4, 5]" ext_id]
    by (simp add: solver_of_def finder_123_45_def members_of_def int_var_of_def ext_id_def shape_123_def)
  have "sampling_vars (conf ?S) = Some [1, 2, 3, 4, 5]" "min_matrix_rows (gaussconf (conf ?S)) < rows shape_123"
    "num shape_123 < length ?xim" "length (gmatrices ?S) = 0"
    by (simp_all add: solver_of_def conf_default_def shape_123_def)
  from sampling_override [OF this, of ext_id finder_123_45, unfolded r prod.case Fin_reaches]
  show "admit_step ext_id finder_123_45 ?xim shape_123 (?S, 0) =
     Some (?S\<lparr>gmatrices := [EGaussian 0 [xor_of [1, 2], xor_of [2, 3]]], gqueuedata := 1\<rparr>, 1)"
    by (simp add: shape_123_def solver_of_def)
next
  let ?S = "solver_of [] (Some [1, 4]) conf_default"
  let ?xim = "[[xor_of [1, 2], xor_of [2, 3]], [xor_of [4, 5]]]"
  have r: "calc_ratio_sampling ext_id ?S (members_of finder_123_45 (num shape_123)) [1, 4]
      = (Fin (1 / 2), ?S)"
    using calc_ratio_sampling_char [of ?S finder_123_45 0 "[1, 4]" ext_id]
    by (simp add: solver_of_def finder_123_45_def members_of_def int_var_of_def ext_id_def shape_123_def)
  have "sampling_vars (conf ?S) = Some [1, 4]" "min_matrix_rows (gaussconf (conf ?S)) < rows shape_123"
    "num shape_123 < length ?xim" "length (gmatrices ?S) = 0"
    by (simp_all add: solver_of_def conf_default_def shape_123_def)
  from sampling_override [OF this, of ext_id finder_123_45, unfolded r prod.case Fin_reaches]
  show "admit_step ext_id finder_123_45 ?xim shape_123 (?S, 0) =
     Some (?S\<lparr>xorclauses := [tag_unused (xor_of [1, 2]), tag_unused (xor_of [2, 3])]\<rparr>, 0)"
    by (simp add: shape_123_def solver_of_def)
next
  let ?S = "solver_of [] (Some []) conf_default"
  let ?xim = "[[xor_of [1, 2], xor_of [2, 3]], [xor_of [4, 5]]]"
  have r: "calc_ratio_sampling ext_id ?S (members_of finder_123_45 (num shape_123)) [] = (NaN, ?S)"
    by (rule calc_ratio_sampling_empty)
      (simp_all add: solver_of_def finder_123_45_def members_of_def shape_123_def)
  have "sampling_vars (conf ?S) = Some []" "min_matrix_rows (gaussconf (conf ?S)) < rows shape_123"
    "num shape_123 < length ?xim" "length (gmatrices ?S) = 0"
    by (simp_all add: solver_of_def conf_default_def shape_123_def)
  from sampling_override [OF this, of ext_id finder_123_45, unfolded r prod.case Fin_reaches]
  show "admit_step ext_id finder_123_45 ?xim shape_123 (?S, 0) =
     Some (?S\<lparr>xorclauses := [tag_unused (xor_of [1, 2]), tag_unused (xor_of [2, 3])]\<rparr>, 0)"
    by (simp add: shape_123_def solver_of_def)
qed

text \<open>
  Claim C4. Without sampling variables the row limit is left as configured, and a
  component with more rows than \<open>max_matrix_rows\<close> or more columns than
  \<open>max_matrix_columns\<close> is rejected: the loop body builds no matrix, and the
  component's constraints go to the pool, tagged.
\<close>

theorem oversized_rejected:
  assumes "sampling_vars (conf S) = None"
    and "max_matrix_rows (gaussconf (conf S)) < rows m \<or>
         max_matrix_columns (gaussconf (conf S)) < cols m"
    and "num m < length xorsInMatrix"
    and "rows m = length (xorsInMatrix ! num m)"
  shows "raise_max_rows (conf S) = Some (conf S) \<and>
     admit_step ext mf xorsInMatrix m (S, realMatrixNum) =
       Some (S\<lparr>xorclauses := xorclauses S @ map tag_unused (xorsInMatrix ! num m)\<rparr>,
             realMatrixNum)"
proof -
  have d: "\<not> use_matrix_decision (conf S) m realMatrixNum (Fin 0)"
    using assms(1,2) by (auto simp: use_matrix_decision_def Let_def)
  show ?thesis
  proof (cases "rows m = 0")
    case True
    with assms(4) have "xorsInMatrix ! num m = []" by simp
    with True assms(1) show ?thesis
      by (simp add: admit_step_def raise_max_rows_def)
  next
    case False
    with assms(1,3) d show ?thesis
      by (simp add: admit_step_def raise_max_rows_def Let_def tag_unused_def leD cong: map_cong)
  qed
qed

text \<open>
  The hypotheses of C4 at a component of two rows with \<open>max_matrix_rows = 1\<close>.
\<close>

theorem oversized_rejected_witness:
  "admit_step ext_id finder_123_45 [[xor_of [1, 2], xor_of [2, 3]], [xor_of [4, 5]]] shape_123
      (solver_of [] None (conf_default\<lparr>max_matrix_rows := 1\<rparr>), 0) =
   Some ((solver_of [] None (conf_default\<lparr>max_matrix_rows := 1\<rparr>))
           \<lparr>xorclauses := [tag_unused (xor_of [1, 2]), tag_unused (xor_of [2, 3])]\<rparr>, 0)"
proof -
  let ?S = "solver_of [] None (conf_default\<lparr>max_matrix_rows := 1\<rparr>)"
  have "sampling_vars (conf ?S) = None"
    "max_matrix_rows (gaussconf (conf ?S)) < rows shape_123 \<or>
       max_matrix_columns (gaussconf (conf ?S)) < cols shape_123"
    "num shape_123 < length [[xor_of [1, 2], xor_of [2, 3]], [xor_of [4, 5]]]"
    "rows shape_123 = length ([[xor_of [1, 2], xor_of [2, 3]], [xor_of [4, 5]]] ! num shape_123)"
    by (simp_all add: solver_of_def conf_default_def shape_123_def)
  from oversized_rejected [OF this, of ext_id finder_123_45 0] show ?thesis
    by (simp add: shape_123_def solver_of_def)
qed

subsection \<open>The configuration across the admission loop\<close>

lemma admit_step_conf:
  "admit_step ext mf xim m (S, r) = Some (S', r') \<Longrightarrow> conf S' = conf S"
  by (auto simp: admit_step_def Let_def split: if_splits prod.splits option.splits
      dest!: calc_ratio_frame)

lemma admission_loop_conf:
  "admission_loop ext mf xim ms (S, r) = Some (S', r') \<Longrightarrow> conf S' = conf S"
proof (induction ms arbitrary: S r)
  case Nil
  then show ?case by simp
next
  case (Cons m ms)
  then obtain S1 r1 where s: "admit_step ext mf xim m (S, r) = Some (S1, r1)"
    and l: "admission_loop ext mf xim ms (S1, r1) = Some (S', r')"
    by (auto split: option.splits)
  from Cons.IH [OF l] admit_step_conf [OF s] show ?case by simp
qed

lemma setup_conf:
  assumes "setup_matrices_attach_remaining_cls ext mf S = Some (n, S')"
  shows "raise_max_rows (conf S) = Some (conf S')"
  using assms
  by (auto simp: setup_matrices_attach_remaining_cls_def Let_def attach_xorclauses_def
      split: option.splits prod.splits dest!: admission_loop_conf)

subsection \<open>The shape evaluator\<close>

lemma distribute_char:
  assumes "length sh = matrix_no mf" and "length xim = matrix_no mf"
    and "\<forall>x\<in>set xs. \<not> trivial x \<longrightarrow> assigned mf x"
  shows "\<exists>sh' xim'. distribute (table mf) (matrix_no mf) xs sh xim = Some (sh', xim') \<and>
     length sh' = matrix_no mf \<and> length xim' = matrix_no mf \<and>
     (\<forall>i<matrix_no mf.
        xim' ! i = xim ! i @ component_rows mf i xs \<and>
        sh' ! i = (sh ! i)\<lparr>rows := rows (sh ! i) + length (component_rows mf i xs),
           sum_xor_sizes := sum_xor_sizes (sh ! i) +
              sum_list (map (\<lambda>x. length (vars x)) (component_rows mf i xs))\<rparr>)"
  using assms
proof (induction xs arbitrary: sh xim)
  case Nil
  then show ?case by (simp add: component_rows_def)
next
  case (Cons x xs)
  from Cons.prems(3) have rest: "\<forall>x\<in>set xs. \<not> trivial x \<longrightarrow> assigned mf x" by simp
  show ?case
  proof (cases "trivial x")
    case True
    from Cons.IH [OF Cons.prems(1,2) rest] True show ?thesis
      by (simp add: component_rows_def)
  next
    case False
    with Cons.prems(3) have "assigned mf x" by simp
    then obtain v0 vs c where vx: "vars x = v0 # vs" and v0: "v0 < length (table mf)"
      and c: "c < matrix_no mf" "table mf ! v0 = Some c"
      by (auto simp: assigned_def split: list.splits)
    let ?sh1 = "sh[c := (sh ! c)\<lparr>rows := rows (sh ! c) + 1,
          sum_xor_sizes := sum_xor_sizes (sh ! c) + length (vars x)\<rparr>]"
    let ?xim1 = "xim[c := xim ! c @ [x]]"
    have step: "distribute (table mf) (matrix_no mf) (x # xs) sh xim =
        distribute (table mf) (matrix_no mf) xs ?sh1 ?xim1"
      using False vx v0 c Cons.prems(1,2) by (simp add: leD)
    have l1: "length ?sh1 = matrix_no mf" "length ?xim1 = matrix_no mf"
      using Cons.prems(1,2) by simp_all
    from Cons.IH [OF l1 rest] obtain sh' xim' where
      d: "distribute (table mf) (matrix_no mf) xs ?sh1 ?xim1 = Some (sh', xim')"
      and len: "length sh' = matrix_no mf" "length xim' = matrix_no mf"
      and ih: "\<forall>i<matrix_no mf.
        xim' ! i = ?xim1 ! i @ component_rows mf i xs \<and>
        sh' ! i = (?sh1 ! i)\<lparr>rows := rows (?sh1 ! i) + length (component_rows mf i xs),
           sum_xor_sizes := sum_xor_sizes (?sh1 ! i) +
              sum_list (map (\<lambda>x. length (vars x)) (component_rows mf i xs))\<rparr>"
      by blast
    have hd: "component_rows mf i (x # xs) =
        (if i = c then x # component_rows mf i xs else component_rows mf i xs)" for i
      using False vx v0 c by (auto simp: component_rows_def)
    have "xim' ! i = xim ! i @ component_rows mf i (x # xs) \<and>
        sh' ! i = (sh ! i)\<lparr>rows := rows (sh ! i) + length (component_rows mf i (x # xs)),
           sum_xor_sizes := sum_xor_sizes (sh ! i) +
              sum_list (map (\<lambda>x. length (vars x)) (component_rows mf i (x # xs)))\<rparr>"
      if "i < matrix_no mf" for i
    proof (cases "i = c")
      case True
      with ih that Cons.prems(1,2) show ?thesis by (simp add: hd add.assoc)
    next
      case False
      with ih that Cons.prems(1,2) show ?thesis by (simp add: hd)
    qed
    with step d len show ?thesis by simp
  qed
qed

lemma init_shapes_nth:
  "i < matrix_no mf \<Longrightarrow> init_shapes mf ! i =
     \<lparr>num = i, rows = 0, cols = length (members_of mf i), sum_xor_sizes = 0, density = 0\<rparr>"
  by (simp add: init_shapes_def new_shape_def)

lemma matrix_shapes_char:
  assumes "\<forall>x\<in>set xs. \<not> trivial x \<longrightarrow> assigned mf x"
  shows "\<exists>sh xim. matrix_shapes mf xs = Some (sh, xim) \<and>
     length sh = matrix_no mf \<and> length xim = matrix_no mf \<and>
     (\<forall>i<matrix_no mf. xim ! i = component_rows mf i xs \<and>
        sh ! i = set_density \<lparr>num = i, rows = length (component_rows mf i xs),
           cols = length (members_of mf i),
           sum_xor_sizes = sum_list (map (\<lambda>x. length (vars x)) (component_rows mf i xs)),
           density = 0\<rparr>)"
proof -
  have "length (init_shapes mf) = matrix_no mf" "length (replicate (matrix_no mf) ([]::Xor list)) = matrix_no mf"
    by (simp_all add: init_shapes_def)
  from distribute_char [OF this assms] obtain sh' xim' where
    d: "distribute (table mf) (matrix_no mf) xs (init_shapes mf) (replicate (matrix_no mf) []) = Some (sh', xim')"
    and len: "length sh' = matrix_no mf" "length xim' = matrix_no mf"
    and ch: "\<forall>i<matrix_no mf.
        xim' ! i = replicate (matrix_no mf) [] ! i @ component_rows mf i xs \<and>
        sh' ! i = (init_shapes mf ! i)\<lparr>rows := rows (init_shapes mf ! i) + length (component_rows mf i xs),
           sum_xor_sizes := sum_xor_sizes (init_shapes mf ! i) +
              sum_list (map (\<lambda>x. length (vars x)) (component_rows mf i xs))\<rparr>"
    by blast
  have "matrix_shapes mf xs = Some (map set_density sh', xim')"
    by (simp add: matrix_shapes_def d)
  moreover have "xim' ! i = component_rows mf i xs \<and>
        map set_density sh' ! i = set_density \<lparr>num = i, rows = length (component_rows mf i xs),
           cols = length (members_of mf i),
           sum_xor_sizes = sum_list (map (\<lambda>x. length (vars x)) (component_rows mf i xs)),
           density = 0\<rparr>" if "i < matrix_no mf" for i
    using ch that len by (simp add: init_shapes_nth)
  ultimately show ?thesis using len by simp
qed

subsection \<open>Conservation of the constraints (C2) and the raised row limit (C10)\<close>

lemma admit_step_cases:
  assumes "num m < length xim" and "rows m = length (xim ! num m)"
    and "length (gmatrices S) = r"
  shows "\<exists>S1 r1. admit_step ext mf xim m (S, r) = Some (S1, r1) \<and>
     length (gmatrices S1) = r1 \<and>
     ((gmatrices S1 = gmatrices S @ [EGaussian r (xim ! num m)] \<and> xorclauses S1 = xorclauses S) \<or>
      (gmatrices S1 = gmatrices S \<and>
       xorclauses S1 = xorclauses S @ map tag_unused (xim ! num m)))"
proof (cases "rows m = 0")
  case True
  with assms show ?thesis by (simp add: admit_step_def)
next
  case False
  obtain ratio S0 where c: "(case sampling_vars (conf S) of None \<Rightarrow> (Fin 0, S)
      | Some sv \<Rightarrow> calc_ratio_sampling ext S (members_of mf (num m)) sv) = (ratio, S0)"
    by force
  have "\<exists>sn. S0 = S\<lparr>seen := sn\<rparr>"
  proof (cases "sampling_vars (conf S)")
    case None
    with c have "S0 = S\<lparr>seen := seen S\<rparr>" by simp
    then show ?thesis by (rule exI [of _ "seen S"])
  next
    case (Some sv)
    with c calc_ratio_frame show ?thesis by simp
  qed
  then obtain sn where S0: "S0 = S\<lparr>seen := sn\<rparr>" ..
  show ?thesis
    using False assms(1,3) c S0
    by (simp add: admit_step_def Let_def leD tag_unused_def cong: map_cong)
qed

lemma admission_loop_conserve:
  assumes "\<forall>m\<in>set ms. num m < length xim \<and> rows m = length (xim ! num m)"
    and "length (gmatrices S) = r"
  shows "\<exists>S' r' A R. admission_loop ext mf xim ms (S, r) = Some (S', r') \<and>
     length (gmatrices S') = r' \<and>
     mset (concat (map (\<lambda>m. xim ! num m) ms)) = mset A + mset R \<and>
     concat (map mat_xors (gmatrices S')) = concat (map mat_xors (gmatrices S)) @ A \<and>
     xorclauses S' = xorclauses S @ map tag_unused R"
  using assms
proof (induction ms arbitrary: S r)
  case Nil
  have "mset (concat (map (\<lambda>m. xim ! num m) [])) = mset [] + mset ([]::Xor list)" by simp
  with Nil show ?case by fastforce
next
  case (Cons m ms)
  from Cons.prems(1) have hm: "num m < length xim" "rows m = length (xim ! num m)"
    and rest: "\<forall>m\<in>set ms. num m < length xim \<and> rows m = length (xim ! num m)"
    by simp_all
  from admit_step_cases [OF hm Cons.prems(2), of ext mf] obtain S1 r1 where
    st: "admit_step ext mf xim m (S, r) = Some (S1, r1)" and g1: "length (gmatrices S1) = r1"
    and alt: "(gmatrices S1 = gmatrices S @ [EGaussian r (xim ! num m)] \<and> xorclauses S1 = xorclauses S) \<or>
      (gmatrices S1 = gmatrices S \<and> xorclauses S1 = xorclauses S @ map tag_unused (xim ! num m))"
    by blast
  from Cons.IH [OF rest g1] obtain S' r' A R where
    lp: "admission_loop ext mf xim ms (S1, r1) = Some (S', r')"
    and g': "length (gmatrices S') = r'"
    and ms: "mset (concat (map (\<lambda>m. xim ! num m) ms)) = mset A + mset R"
    and gm: "concat (map mat_xors (gmatrices S')) = concat (map mat_xors (gmatrices S1)) @ A"
    and xc: "xorclauses S' = xorclauses S1 @ map tag_unused R"
    by blast
  have run: "admission_loop ext mf xim (m # ms) (S, r) = Some (S', r')"
    using st lp by simp
  from alt show ?case
  proof
    assume a: "gmatrices S1 = gmatrices S @ [EGaussian r (xim ! num m)] \<and> xorclauses S1 = xorclauses S"
    have "mset (concat (map (\<lambda>m. xim ! num m) (m # ms))) = mset (xim ! num m @ A) + mset R"
      using ms by simp
    moreover have "concat (map mat_xors (gmatrices S')) =
        concat (map mat_xors (gmatrices S)) @ (xim ! num m @ A)"
      using gm a by simp
    moreover have "xorclauses S' = xorclauses S @ map tag_unused R" using xc a by simp
    ultimately show ?thesis using run g' by blast
  next
    assume b: "gmatrices S1 = gmatrices S \<and> xorclauses S1 = xorclauses S @ map tag_unused (xim ! num m)"
    have "mset (concat (map (\<lambda>m. xim ! num m) (m # ms))) = mset A + mset (xim ! num m @ R)"
      using ms by simp
    moreover have "concat (map mat_xors (gmatrices S')) = concat (map mat_xors (gmatrices S)) @ A"
      using gm b by simp
    moreover have "xorclauses S' = xorclauses S @ map tag_unused (xim ! num m @ R)"
      using xc b by simp
    ultimately show ?thesis using run g' by blast
  qed
qed

lemma mset_concat_reindex:
  assumes "mset is = mset [0..<length xim]"
  shows "mset (concat (map (\<lambda>i. xim ! i) is)) = mset (concat xim)"
proof -
  have "mset (concat (map (\<lambda>i. xim ! i) is)) = (\<Sum>i\<leftarrow>is. mset (xim ! i))"
    by (simp add: mset_concat comp_def)
  also have "\<dots> = sum_mset (image_mset (\<lambda>i. mset (xim ! i)) (mset is))"
    by (simp add: sum_mset_sum_list [symmetric])
  also have "\<dots> = sum_mset (image_mset (\<lambda>i. mset (xim ! i)) (mset [0..<length xim]))"
    by (simp only: assms)
  also have "\<dots> = (\<Sum>i\<leftarrow>[0..<length xim]. mset (xim ! i))"
    by (simp only: sum_mset_sum_list [symmetric] mset_map)
  also have "\<dots> = (\<Sum>xs\<leftarrow>map (\<lambda>i. xim ! i) [0..<length xim]. mset xs)"
    by (simp add: comp_def)
  also have "\<dots> = mset (concat xim)"
    by (simp only: map_nth mset_concat)
  finally show ?thesis .
qed

lemma sum_list_single_mset:
  "(\<Sum>i\<leftarrow>[0..<n]. if i = c then M else {#}) = (if c < n then M else ({#}::'a multiset))"
  by (induction n) auto

lemma mset_component_rows:
  assumes "\<forall>x\<in>set xs. \<not> trivial x \<longrightarrow> assigned mf x"
  shows "mset (concat (map (\<lambda>i. component_rows mf i xs) [0..<matrix_no mf])) =
     mset (filter (\<lambda>x. \<not> trivial x) xs)"
  using assms
proof (induction xs)
  case Nil
  then show ?case by (simp add: component_rows_def mset_concat comp_def)
next
  case (Cons x xs)
  let ?n = "matrix_no mf"
  have IH: "mset (concat (map (\<lambda>i. component_rows mf i xs) [0..<?n])) =
     mset (filter (\<lambda>x. \<not> trivial x) xs)"
    using Cons by simp
  show ?case
  proof (cases "trivial x")
    case True
    then have "component_rows mf i (x # xs) = component_rows mf i xs" for i
      by (simp add: component_rows_def)
    with IH True show ?thesis by simp
  next
    case False
    with Cons.prems have "assigned mf x" by simp
    then obtain v0 vs c where vx: "vars x = v0 # vs" and v0: "v0 < length (table mf)"
      and c: "c < ?n" "table mf ! v0 = Some c"
      by (auto simp: assigned_def split: list.splits)
    have hd: "component_rows mf i (x # xs) =
        (if i = c then x # component_rows mf i xs else component_rows mf i xs)" for i
      using False vx v0 c by (auto simp: component_rows_def)
    have "(\<Sum>i\<leftarrow>[0..<?n]. mset (component_rows mf i (x # xs))) =
        (\<Sum>i\<leftarrow>[0..<?n]. (if i = c then {#x#} else {#}) + mset (component_rows mf i xs))"
      by (rule arg_cong [where f = sum_list]) (simp add: hd)
    also have "\<dots> = (\<Sum>i\<leftarrow>[0..<?n]. (if i = c then {#x#} else {#})) +
        (\<Sum>i\<leftarrow>[0..<?n]. mset (component_rows mf i xs))"
      by (simp add: sum_list_addf)
    also have "(\<Sum>i\<leftarrow>[0..<?n]. (if i = c then {#x#} else {#})) = {#x#}"
      using c(1) by (simp add: sum_list_single_mset)
    finally have "mset (concat (map (\<lambda>i. component_rows mf i (x # xs)) [0..<?n])) =
        {#x#} + mset (concat (map (\<lambda>i. component_rows mf i xs) [0..<?n]))"
      by (simp add: mset_concat comp_def)
    with IH False show ?thesis by simp
  qed
qed

lemma raise_max_rows_frame:
  assumes "\<forall>sv. sampling_vars cf = Some sv \<longrightarrow> 3 * length sv < 2 ^ 32"
  shows "\<exists>cf'. raise_max_rows cf = Some cf' \<and> sampling_vars cf' = sampling_vars cf"
proof (cases "sampling_vars cf")
  case None
  then show ?thesis by (simp add: raise_max_rows_def)
next
  case (Some sv)
  with assms have "\<not> 2 ^ 32 \<le> length sv * 3" by (simp add: mult.commute)
  with Some show ?thesis by (simp add: raise_max_rows_def Let_def)
qed

lemma setup_conserve:
  assumes perm: "\<forall>l. mset (sort_shapes ext l) = mset l"
    and pre: "\<forall>x\<in>set (xorclauses S). \<not> trivial x \<longrightarrow> assigned mf x"
    and gm: "gmatrices S = []"
    and bound: "\<forall>sv. sampling_vars (conf S) = Some sv \<longrightarrow> 3 * length sv < 2 ^ 32"
  shows "\<exists>n S' R. setup_matrices_attach_remaining_cls ext mf S = Some (n, S') \<and>
     n = length (gmatrices S') \<and>
     mset (filter (\<lambda>x. \<not> trivial x) (xorclauses S)) =
       mset (concat (map mat_xors (gmatrices S'))) + mset R \<and>
     xorclauses S' = map tag_unused R \<and> attached S' = Some (xorclauses S')"
proof -
  let ?xs = "xorclauses S" and ?n = "matrix_no mf"
  from raise_max_rows_frame [OF bound] obtain cf where cf: "raise_max_rows (conf S) = Some cf"
    by blast
  from matrix_shapes_char [OF pre] obtain sh xim where
    msh: "matrix_shapes mf ?xs = Some (sh, xim)"
    and len: "length sh = ?n" "length xim = ?n"
    and ch: "\<forall>i<?n. xim ! i = component_rows mf i ?xs \<and>
        sh ! i = set_density \<lparr>num = i, rows = length (component_rows mf i ?xs),
           cols = length (members_of mf i),
           sum_xor_sizes = sum_list (map (\<lambda>x. length (vars x)) (component_rows mf i ?xs)),
           density = 0\<rparr>"
    by blast
  have shi: "num (sh ! i) = i \<and> rows (sh ! i) = length (xim ! i)" if "i < ?n" for i
    using ch that by (simp add: set_density_def)
  let ?ms = "rev (sort_shapes ext sh)"
  have setms: "set ?ms = set sh"
    using perm by (metis set_rev set_mset_mset)
  have hyp: "\<forall>m\<in>set ?ms. num m < length xim \<and> rows m = length (xim ! num m)"
  proof
    fix m assume "m \<in> set ?ms"
    with setms have "m \<in> set sh" by simp
    then obtain i where "i < length sh" "m = sh ! i" by (metis in_set_conv_nth)
    with shi len show "num m < length xim \<and> rows m = length (xim ! num m)" by simp
  qed
  let ?S1 = "S\<lparr>conf := cf, xorclauses := []\<rparr>"
  have g0: "length (gmatrices ?S1) = 0" using gm by simp
  from admission_loop_conserve [OF hyp g0, of ext mf] obtain S' r' A R where
    lp: "admission_loop ext mf xim ?ms (?S1, 0) = Some (S', r')"
    and g': "length (gmatrices S') = r'"
    and ms: "mset (concat (map (\<lambda>m. xim ! num m) ?ms)) = mset A + mset R"
    and gA: "concat (map mat_xors (gmatrices S')) = concat (map mat_xors (gmatrices ?S1)) @ A"
    and xR: "xorclauses S' = xorclauses ?S1 @ map tag_unused R"
    by blast
  have nums: "map num sh = [0..<length xim]"
    using shi len by (intro nth_equalityI) simp_all
  have "mset (map num ?ms) = mset (map num sh)"
    using perm by simp
  with nums have "mset (map num ?ms) = mset [0..<length xim]" by simp
  from mset_concat_reindex [OF this]
  have e1: "mset (concat (map (\<lambda>m. xim ! num m) ?ms)) = mset (concat xim)"
    by (simp add: comp_def)
  have e2: "xim = map (\<lambda>i. component_rows mf i ?xs) [0..<?n]"
    using ch len by (intro nth_equalityI) simp_all
  have e3: "mset (concat xim) = mset (filter (\<lambda>x. \<not> trivial x) ?xs)"
    by (subst e2) (rule mset_component_rows [OF pre])
  have total: "mset (filter (\<lambda>x. \<not> trivial x) ?xs) = mset A + mset R"
    using ms e1 e3 by simp
  have run: "setup_matrices_attach_remaining_cls ext mf S =
      Some (r', attach_xorclauses ext S')"
    using cf msh lp by (simp add: setup_matrices_attach_remaining_cls_def)
  have "r' = length (gmatrices (attach_xorclauses ext S'))"
    using g' by (simp add: attach_xorclauses_def)
  moreover have "mset (filter (\<lambda>x. \<not> trivial x) ?xs) =
      mset (concat (map mat_xors (gmatrices (attach_xorclauses ext S')))) + mset R"
    using total gA gm by (simp add: attach_xorclauses_def)
  moreover have "xorclauses (attach_xorclauses ext S') = map tag_unused R"
    using xR by (simp add: attach_xorclauses_def)
  moreover have "attached (attach_xorclauses ext S') = Some (xorclauses (attach_xorclauses ext S'))"
    by (simp add: attach_xorclauses_def)
  ultimately show ?thesis using run by blast
qed

lemma partition_assigns:
  assumes "\<forall>x\<in>set xs. \<forall>v\<in>set (vars x). v < n"
    and "\<forall>x\<in>set xs. \<not> trivial x \<longrightarrow> vars x \<noteq> []"
  shows "\<exists>mf. partition_loop (init_finder n) xs = Some mf \<and>
     (\<forall>x\<in>set xs. \<not> trivial x \<longrightarrow> assigned mf x)"
proof -
  from partition_loop_from_init [OF assms(1)] obtain mf where
    pl: "partition_loop (init_finder n) xs = Some mf" and inv: "finder_inv n mf"
    and sc: "\<forall>u v. same_component mf u v \<longleftrightarrow> connected xs u v" by blast
  have "assigned mf x" if x: "x \<in> set xs" "\<not> trivial x" for x
  proof -
    from assms(2) x obtain v0 vs where vx: "vars x = v0 # vs" by (cases "vars x") auto
    then have "v0 \<in> set (vars x)" by simp
    with x(1) have "(v0, v0) \<in> shares xs" unfolding shares_def by blast
    then have "connected xs v0 v0" by (auto simp: connected_def)
    with sc have "same_component mf v0 v0" by simp
    then obtain c where v0: "v0 < length (table mf)" and c: "table mf ! v0 = Some c"
      by (auto simp: same_component_def)
    from inv have L: "length (table mf) = n" by (simp add: finder_inv_def)
    from inv v0 c L obtain l where "reverseTable mf c = Some l"
      unfolding finder_inv_def by blast
    with inv have "c < matrix_no mf" unfolding finder_inv_def by blast
    with vx v0 c show ?thesis by (simp add: assigned_def)
  qed
  with pl show ?thesis by blast
qed

text \<open>
  Claim C2. A run of \<open>find_matrices\<close> that passes the three early exits, on
  constraints (as the cleaning and combining left them) whose variables are variables of
  the solver and whose non-trivial members have a variable, ends; the non-trivial
  constraints are, as a multiset, the constraints of the accepted matrices together with
  constraints \<open>R\<close>, and the pool that is attached at the end is exactly \<open>R\<close> with every tag
  set to 1000. Trivial constraints are in neither.
\<close>

theorem constraints_conserved:
  assumes "decisionLevel S = 0" and "ok S" and "gmatrices S = []"
    and "xor_together_xors ext (clean_xor_clauses ext (xorclauses S)) = (True, xs)"
    and "min_gauss_xor_clauses (gaussconf (conf S)) \<le> length xs"
    and "length xs \<le> max_gauss_xor_clauses (gaussconf (conf S)) \<or> sampling_vars (conf S) = None"
    and "doMatrixFind (gaussconf (conf S))"
    and "\<forall>x\<in>set xs. \<forall>v\<in>set (vars x). v < nVars S"
    and "\<forall>x\<in>set xs. \<not> trivial x \<longrightarrow> vars x \<noteq> []"
    and "\<forall>sv. sampling_vars (conf S) = Some sv \<longrightarrow> 3 * length sv < 2 ^ 32"
    and "\<forall>l. mset (sort_shapes ext l) = mset l"
  shows "\<exists>out R. find_matrices ext S = Some out \<and>
     mset (filter (\<lambda>x. \<not> trivial x) xs) =
       mset (concat (map mat_xors (gmatrices (solver out)))) + mset R \<and>
     xorclauses (solver out) = map tag_unused R \<and>
     attached (solver out) = Some (xorclauses (solver out))"
proof -
  let ?S3 = "set_clash_decision_vars ((detach_clear_xorclauses S)\<lparr>xorclauses := xs\<rparr>)"
  have S3: "xorclauses ?S3 = xs" "conf ?S3 = conf S" "gmatrices ?S3 = []" "nVars ?S3 = nVars S"
    using assms(3) by (simp_all add: set_clash_decision_vars_def detach_clear_xorclauses_def)
  from partition_assigns [OF assms(8,9)] obtain mf where
    pl: "partition_loop (init_finder (nVars S)) xs = Some mf"
    and asg: "\<forall>x\<in>set xs. \<not> trivial x \<longrightarrow> assigned mf x" by blast
  have "\<exists>n S' R. setup_matrices_attach_remaining_cls ext mf ?S3 = Some (n, S') \<and>
     n = length (gmatrices S') \<and>
     mset (filter (\<lambda>x. \<not> trivial x) (xorclauses ?S3)) =
       mset (concat (map mat_xors (gmatrices S'))) + mset R \<and>
     xorclauses S' = map tag_unused R \<and> attached S' = Some (xorclauses S')"
    by (rule setup_conserve [OF assms(11)]) (use asg assms(10) S3 in simp_all)
  then obtain n S' R where
    st: "setup_matrices_attach_remaining_cls ext mf ?S3 = Some (n, S')"
    and cons: "mset (filter (\<lambda>x. \<not> trivial x) xs) =
       mset (concat (map mat_xors (gmatrices S'))) + mset R"
      "xorclauses S' = map tag_unused R" "attached S' = Some (xorclauses S')"
    using S3 by auto
  have "find_matrices ext S =
      Some \<lparr>ret = ok S', matrix_created = True, finder = mf, solver = S'\<rparr>"
    using assms(1-7) pl st S3
    by (auto simp: find_matrices_def Let_def detach_clear_xorclauses_def)
  with cons show ?thesis by auto
qed

text \<open>
  The hypotheses of C2 at three constraints and a trivial one, with room for one matrix.
\<close>

theorem constraints_conserved_witness:
  "\<exists>out R. find_matrices ext_id
        (solver_of [xor_of [1, 2], xor_trivial, xor_of [2, 3], xor_of [4, 5]] None
           (conf_default\<lparr>max_num_matrices := 1\<rparr>)) = Some out \<and>
     mset (filter (\<lambda>x. \<not> trivial x) [xor_of [1, 2], xor_trivial, xor_of [2, 3], xor_of [4, 5]]) =
       mset (concat (map mat_xors (gmatrices (solver out)))) + mset R \<and>
     xorclauses (solver out) = map tag_unused R \<and>
     attached (solver out) = Some (xorclauses (solver out))"
  by (rule constraints_conserved)
    (simp_all add: solver_of_def ext_id_def conf_default_def xor_of_def xor_trivial_def)

text \<open>
  Claim C10. With sampling variables configured and \<open>max_matrix_rows\<close> below three
  times their number, a completed run leaves \<open>max_matrix_rows\<close> at three times their
  number in the solver's configuration, and is the run that starts from the
  configuration with the raised limit: every admission decision sees the raised limit.
\<close>

theorem max_rows_raised:
  assumes "sampling_vars (conf S) = Some sv"
    and "max_matrix_rows (gaussconf (conf S)) < 3 * length sv"
    and "3 * length sv < 2 ^ 32"
    and "setup_matrices_attach_remaining_cls ext mf S = Some (n, S')"
  shows "max_matrix_rows (gaussconf (conf S')) = 3 * length sv \<and>
     setup_matrices_attach_remaining_cls ext mf
       (S\<lparr>conf := (conf S)\<lparr>gaussconf := (gaussconf (conf S))\<lparr>max_matrix_rows := 3 * length sv\<rparr>\<rparr>\<rparr>)
       = Some (n, S')"
proof -
  let ?cf = "(conf S)\<lparr>gaussconf := (gaussconf (conf S))\<lparr>max_matrix_rows := 3 * length sv\<rparr>\<rparr>"
  have r: "raise_max_rows (conf S) = Some ?cf"
    using assms(1-3) by (simp add: raise_max_rows_def Let_def mult.commute)
  have r': "raise_max_rows ?cf = Some ?cf"
    using assms(1-3) by (simp add: raise_max_rows_def Let_def mult.commute)
  from setup_conf [OF assms(4)] r have "conf S' = ?cf" by simp
  moreover have "setup_matrices_attach_remaining_cls ext mf (S\<lparr>conf := ?cf\<rparr>) =
      setup_matrices_attach_remaining_cls ext mf S"
    by (simp add: setup_matrices_attach_remaining_cls_def r r')
  ultimately show ?thesis using assms(4) by simp
qed

text \<open>
  The hypotheses of C10 at one sampling variable and \<open>max_matrix_rows = 1\<close>.
\<close>

theorem max_rows_raised_witness:
  "\<exists>n S'. setup_matrices_attach_remaining_cls ext_id finder_123_45
        (solver_of [xor_of [1, 2], xor_of [2, 3], xor_of [4, 5]] (Some [1]) (conf_default\<lparr>max_matrix_rows := 1\<rparr>))
        = Some (n, S') \<and>
      max_matrix_rows (gaussconf (conf S')) = 3"
proof -
  let ?S = "solver_of [xor_of [1, 2], xor_of [2, 3], xor_of [4, 5]] (Some [1]) (conf_default\<lparr>max_matrix_rows := 1\<rparr>)"
  have "\<exists>n S' R. setup_matrices_attach_remaining_cls ext_id finder_123_45 ?S = Some (n, S') \<and>
     n = length (gmatrices S') \<and>
     mset (filter (\<lambda>x. \<not> trivial x) (xorclauses ?S)) =
       mset (concat (map mat_xors (gmatrices S'))) + mset R \<and>
     xorclauses S' = map tag_unused R \<and> attached S' = Some (xorclauses S')"
    by (rule setup_conserve)
      (simp_all add: solver_of_def ext_id_def assigned_def xor_of_def finder_123_45_def)
  then obtain n S' where r: "setup_matrices_attach_remaining_cls ext_id finder_123_45 ?S = Some (n, S')"
    by blast
  have "sampling_vars (conf ?S) = Some [1]" "max_matrix_rows (gaussconf (conf ?S)) < 3 * length [1::nat]"
    "3 * length [1::nat] < 2 ^ 32"
    by (simp_all add: solver_of_def conf_default_def)
  from max_rows_raised [OF this r] r show ?thesis by simp
qed

subsection \<open>The shapes of the final components (C8)\<close>

lemma merge_sets_distinct:
  assumes "distinct ns"
    and "\<forall>c\<in>set cs. \<forall>l. rt c = Some l \<longrightarrow> distinct l \<and> set l \<inter> set ns = {}"
    and "\<forall>c\<in>set cs. \<forall>d\<in>set cs. \<forall>l l'. c \<noteq> d \<and> rt c = Some l \<and> rt d = Some l' \<longrightarrow>
           set l \<inter> set l' = {}"
  shows "distinct (fst (merge_sets rt cs ns))"
  using assms
proof (induction cs arbitrary: rt ns)
  case Nil
  then show ?case by simp
next
  case (Cons c cs)
  let ?l = "case rt c of None \<Rightarrow> [] | Some l \<Rightarrow> l"
  have d1: "distinct (ns @ ?l)"
    using Cons.prems(1,2) by (cases "rt c") auto
  have d2: "\<forall>d\<in>set cs. \<forall>l. (rt(c := None)) d = Some l \<longrightarrow>
      distinct l \<and> set l \<inter> set (ns @ ?l) = {}"
  proof (intro ballI allI impI)
    fix d l assume d: "d \<in> set cs" and r: "(rt(c := None)) d = Some l"
    then have dc: "d \<noteq> c" and rd: "rt d = Some l" by (auto split: if_splits)
    from Cons.prems(2) d rd have a: "distinct l" "set l \<inter> set ns = {}" by auto
    have "set l \<inter> set ?l = {}"
    proof (cases "rt c")
      case None
      then show ?thesis by simp
    next
      case (Some lc)
      with Cons.prems(3) d dc rd have "set l \<inter> set lc = {}"
        by (metis list.set_intros(1,2))
      with Some show ?thesis by simp
    qed
    with a show "distinct l \<and> set l \<inter> set (ns @ ?l) = {}" by auto
  qed
  have d3: "\<forall>a\<in>set cs. \<forall>d\<in>set cs. \<forall>l l'. a \<noteq> d \<and> (rt(c := None)) a = Some l \<and>
      (rt(c := None)) d = Some l' \<longrightarrow> set l \<inter> set l' = {}"
  proof (intro ballI allI impI)
    fix a d l l'
    assume a: "a \<in> set cs" and d: "d \<in> set cs"
      and h: "a \<noteq> d \<and> (rt(c := None)) a = Some l \<and> (rt(c := None)) d = Some l'"
    then have "rt a = Some l" "rt d = Some l'" "a \<noteq> d" by (auto split: if_splits)
    with Cons.prems(3) a d show "set l \<inter> set l' = {}"
      by (metis list.set_intros(2))
  qed
  have "merge_sets rt (c # cs) ns = merge_sets (rt(c := None)) cs (ns @ ?l)" by simp
  with Cons.IH [OF d1 d2 d3] show ?case by (simp only:)
qed

lemma partition_step_distinct:
  assumes inv: "finder_inv n mf" and md: "members_distinct mf"
    and rng: "\<forall>v\<in>set (vars x). v < n" and dx: "distinct (vars x)"
    and ps: "partition_step mf x = Some mf'"
  shows "members_distinct mf'"
proof -
  let ?tab = "table mf" and ?rt = "reverseTable mf" and ?V = "set (vars x)"
  have L: "length ?tab = n" using inv by (simp add: finder_inv_def)
  have rng': "\<forall>v\<in>?V. v < length ?tab" using rng L by simp
  have i4: "\<And>c l v. ?rt c = Some l \<Longrightarrow> v \<in> set l \<Longrightarrow> v < n \<and> ?tab ! v = Some c"
    using inv unfolding finder_inv_def by blast
  have dl: "\<And>c l. ?rt c = Some l \<Longrightarrow> distinct l"
    using md unfolding members_distinct_def by blast
  have bl: "belong_same_matrix mf x = Some (\<exists>c. \<forall>v\<in>?V. ?tab ! v = Some c)"
    using belong_loop_char [OF rng', of None] by (simp add: belong_same_matrix_def)
  let ?ns = "filter (\<lambda>v. ?tab ! v = None) (vars x)"
  have dns: "distinct ?ns" using dx by simp
  have ns_none: "\<And>v. v \<in> set ?ns \<Longrightarrow> ?tab ! v = None" by simp
  have disj: "set l \<inter> set ?ns = {}" if "?rt c = Some l" for c l
  proof -
    have "False" if "v \<in> set l" "v \<in> set ?ns" for v
      using i4 [OF \<open>?rt c = Some l\<close> that(1)] ns_none [OF that(2)] by simp
    then show ?thesis by blast
  qed
  show ?thesis
  proof (cases "\<exists>c. \<forall>v\<in>?V. ?tab ! v = Some c")
    case True
    with ps bl have "mf' = mf" by (simp add: partition_step_def)
    with md show ?thesis by simp
  next
    case False
    with bl have bl': "belong_same_matrix mf x = Some False" by simp
    obtain tm where sc: "scan_vars ?tab (vars x) [] [] = Some (tm, ?ns)"
      using scan_vars_char [OF rng', of "[]" "[]"] by auto
    show ?thesis
    proof (cases "\<exists>into. tm = [into]")
      case True
      then obtain into where tm: "tm = [into]" ..
      show ?thesis
      proof (cases "?rt into")
        case None
        with ps bl' sc tm have "mf' = mf"
          by (simp add: partition_step_def split: if_splits)
        with md show ?thesis by simp
      next
        case (Some members)
        obtain tab' where ab: "absorb ?tab members into ?ns = Some (tab', members @ ?ns)"
          using absorb_char [of ?ns ?tab members into] rng' by auto
        from ps bl' sc tm Some ab
        have rt': "reverseTable mf' = ?rt(into \<mapsto> members @ ?ns)"
          by (auto simp: partition_step_def)
        have "distinct (members @ ?ns)"
          using dl [OF Some] dns disj [OF Some] by simp
        with rt' dl show ?thesis
          by (auto simp: members_distinct_def split: if_splits)
      qed
    next
      case nsingle: False
      obtain ns' rt' where mg: "merge_sets ?rt tm ?ns = (ns', rt')" by force
      from merge_sets_char [OF mg]
      have rt'': "rt' = (\<lambda>c. if c \<in> set tm then None else ?rt c)" by simp
      have "distinct (fst (merge_sets ?rt tm ?ns))"
      proof (rule merge_sets_distinct [OF dns])
        show "\<forall>c\<in>set tm. \<forall>l. ?rt c = Some l \<longrightarrow> distinct l \<and> set l \<inter> set ?ns = {}"
          using dl disj by blast
        show "\<forall>c\<in>set tm. \<forall>d\<in>set tm. \<forall>l l'. c \<noteq> d \<and> ?rt c = Some l \<and> ?rt d = Some l' \<longrightarrow>
           set l \<inter> set l' = {}"
        proof (intro ballI allI impI)
          fix c d l l' assume h: "c \<noteq> d \<and> ?rt c = Some l \<and> ?rt d = Some l'"
          have "False" if "v \<in> set l" "v \<in> set l'" for v
          proof -
            from h that i4 have "?tab ! v = Some c" "?tab ! v = Some d" by blast+
            with h show False by simp
          qed
          then show "set l \<inter> set l' = {}" by blast
        qed
      qed
      with mg have dn: "distinct ns'" by simp
      from ps bl' sc nsingle mg obtain tab' where
        "mf' = \<lparr>table = tab', reverseTable = rt'(matrix_no mf \<mapsto> ns'), matrix_no = matrix_no mf + 1\<rparr>"
        by (auto simp: partition_step_def case_not_single split: option.splits)
      with dn rt'' dl show ?thesis
        by (auto simp: members_distinct_def split: if_splits)
    qed
  qed
qed

lemma partition_loop_distinct:
  assumes "finder_inv n mf" and "members_distinct mf"
    and "\<forall>x\<in>set xs. \<forall>v\<in>set (vars x). v < n"
    and "\<forall>x\<in>set xs. distinct (vars x)"
    and "partition_loop mf xs = Some mf'"
  shows "members_distinct mf'"
  using assms
proof (induction xs arbitrary: mf)
  case Nil
  then show ?case by simp
next
  case (Cons x xs)
  from Cons.prems(3) have rx: "\<forall>v\<in>set (vars x). v < n"
    and rxs: "\<forall>x\<in>set xs. \<forall>v\<in>set (vars x). v < n" by simp_all
  from Cons.prems(4) have dx: "distinct (vars x)" and dxs: "\<forall>x\<in>set xs. distinct (vars x)"
    by simp_all
  from partition_step_char [OF Cons.prems(1) rx] obtain mf1 where
    ps: "partition_step mf x = Some mf1" and inv1: "finder_inv n mf1" by blast
  from partition_step_distinct [OF Cons.prems(1,2) rx dx ps] have md1: "members_distinct mf1" .
  from Cons.prems(5) ps have "partition_loop mf1 xs = Some mf'" by simp
  from Cons.IH [OF inv1 md1 rxs dxs this] show ?case .
qed

lemma members_distinct_init: "members_distinct (init_finder n)"
  by (simp add: members_distinct_def init_finder_def)

lemma length_members_card:
  assumes inv: "finder_inv n mf" and md: "members_distinct mf"
  shows "length (members_of mf i) = card {v. v < n \<and> table mf ! v = Some i}"
proof (cases "reverseTable mf i")
  case None
  have "{v. v < n \<and> table mf ! v = Some i} = {}"
    using inv None unfolding finder_inv_def by fastforce
  with None show ?thesis by (simp add: members_of_def)
next
  case (Some l)
  have "set l = {v. v < n \<and> table mf ! v = Some i}"
  proof (intro set_eqI iffI)
    fix v assume "v \<in> set l"
    with inv Some show "v \<in> {v. v < n \<and> table mf ! v = Some i}"
      unfolding finder_inv_def by blast
  next
    fix v assume "v \<in> {v. v < n \<and> table mf ! v = Some i}"
    then have "v < n \<and> table mf ! v = Some i" by simp
    with inv obtain l' where "reverseTable mf i = Some l'" "v \<in> set l'"
      unfolding finder_inv_def by blast
    with Some show "v \<in> set l" by simp
  qed
  moreover from md Some have "distinct l" by (simp add: members_distinct_def)
  ultimately have "card {v. v < n \<and> table mf ! v = Some i} = length l"
    using distinct_card [of l] by simp
  with Some show ?thesis by (simp add: members_of_def)
qed

lemma partition_example:
  "partition_loop (init_finder 6) [xor_of [1, 2], xor_of [2, 3], xor_of [4, 5]] = Some finder_123_45"
  by (simp add: init_finder_def xor_of_def finder_123_45_def partition_step_def
      belong_same_matrix_def numeral_eq_Suc fun_eq_iff)

text \<open>
  Claim C8. After the partitioning loop, run on constraints whose variables are
  variables of the solver and whose non-trivial members have a variable, the shapes are
  computed, and the shape of every component number \<open>i\<close> below \<open>matrix_no\<close> has as rows
  the number of non-trivial constraints whose first variable maps to \<open>i\<close>; as columns the
  number of entries of \<open>reverseTable[i]\<close>, which is the number of variables that \<open>table\<close>
  maps to \<open>i\<close> when no constraint holds a variable twice; as sum of arities the summed
  lengths of those constraints; and as density that sum over rows times columns, 0 when
  the product is 0.
\<close>

theorem shape_values:
  assumes "\<forall>x\<in>set xs. \<forall>v\<in>set (vars x). v < n"
    and "\<forall>x\<in>set xs. \<not> trivial x \<longrightarrow> vars x \<noteq> []"
  shows "\<exists>mf sh xim. partition_loop (init_finder n) xs = Some mf \<and>
     matrix_shapes mf xs = Some (sh, xim) \<and> length sh = matrix_no mf \<and>
     (\<forall>i<matrix_no mf.
        num (sh ! i) = i \<and>
        rows (sh ! i) = length (component_rows mf i xs) \<and>
        cols (sh ! i) = (case reverseTable mf i of None \<Rightarrow> 0 | Some l \<Rightarrow> length l) \<and>
        ((\<forall>x\<in>set xs. distinct (vars x)) \<longrightarrow>
           cols (sh ! i) = card {v. v < n \<and> table mf ! v = Some i}) \<and>
        sum_xor_sizes (sh ! i) = sum_list (map (\<lambda>x. length (vars x)) (component_rows mf i xs)) \<and>
        density (sh ! i) =
          (if rows (sh ! i) * cols (sh ! i) \<noteq> 0
           then real (sum_xor_sizes (sh ! i)) / real (rows (sh ! i) * cols (sh ! i))
           else 0))"
proof -
  from partition_loop_from_init [OF assms(1)] obtain mf where
    pl: "partition_loop (init_finder n) xs = Some mf" and inv: "finder_inv n mf" by blast
  from partition_assigns [OF assms] pl have asg: "\<forall>x\<in>set xs. \<not> trivial x \<longrightarrow> assigned mf x"
    by simp
  from matrix_shapes_char [OF asg] obtain sh xim where
    m: "matrix_shapes mf xs = Some (sh, xim)" "length sh = matrix_no mf"
    and ch: "\<forall>i<matrix_no mf. sh ! i = set_density \<lparr>num = i, rows = length (component_rows mf i xs),
           cols = length (members_of mf i),
           sum_xor_sizes = sum_list (map (\<lambda>x. length (vars x)) (component_rows mf i xs)),
           density = 0\<rparr>"
    by blast
  have len: "length (members_of mf i) = (case reverseTable mf i of None \<Rightarrow> 0 | Some l \<Rightarrow> length l)"
    for i by (simp add: members_of_def split: option.splits)
  have crd: "length (members_of mf i) = card {v. v < n \<and> table mf ! v = Some i}"
    if "\<forall>x\<in>set xs. distinct (vars x)" for i
  proof -
    from partition_loop_distinct [OF finder_inv_init members_distinct_init assms(1) that pl]
    have "members_distinct mf" .
    with inv show ?thesis by (rule length_members_card)
  qed
  have "num (sh ! i) = i \<and>
        rows (sh ! i) = length (component_rows mf i xs) \<and>
        cols (sh ! i) = (case reverseTable mf i of None \<Rightarrow> 0 | Some l \<Rightarrow> length l) \<and>
        ((\<forall>x\<in>set xs. distinct (vars x)) \<longrightarrow>
           cols (sh ! i) = card {v. v < n \<and> table mf ! v = Some i}) \<and>
        sum_xor_sizes (sh ! i) = sum_list (map (\<lambda>x. length (vars x)) (component_rows mf i xs)) \<and>
        density (sh ! i) =
          (if rows (sh ! i) * cols (sh ! i) \<noteq> 0
           then real (sum_xor_sizes (sh ! i)) / real (rows (sh ! i) * cols (sh ! i))
           else 0)" if "i < matrix_no mf" for i
  proof -
    from ch that have s: "sh ! i = set_density \<lparr>num = i, rows = length (component_rows mf i xs),
           cols = length (members_of mf i),
           sum_xor_sizes = sum_list (map (\<lambda>x. length (vars x)) (component_rows mf i xs)),
           density = 0\<rparr>" by simp
    have c: "cols (sh ! i) = length (members_of mf i)"
      unfolding s by (simp add: set_density_def)
    have rest: "num (sh ! i) = i \<and>
        rows (sh ! i) = length (component_rows mf i xs) \<and>
        sum_xor_sizes (sh ! i) = sum_list (map (\<lambda>x. length (vars x)) (component_rows mf i xs)) \<and>
        density (sh ! i) =
          (if rows (sh ! i) * cols (sh ! i) \<noteq> 0
           then real (sum_xor_sizes (sh ! i)) / real (rows (sh ! i) * cols (sh ! i))
           else 0)"
      unfolding s by (simp add: set_density_def tot_size_def)
    from c len [of i] have c1: "cols (sh ! i) = (case reverseTable mf i of None \<Rightarrow> 0 | Some l \<Rightarrow> length l)"
      by simp
    from c crd [of i] have c2: "(\<forall>x\<in>set xs. distinct (vars x)) \<longrightarrow>
           cols (sh ! i) = card {v. v < n \<and> table mf ! v = Some i}" by simp
    from rest c1 c2 show ?thesis by blast
  qed
  with pl m show ?thesis by blast
qed

text \<open>
  The hypotheses of C8 at three constraints over six variables: the loop ends with the
  components \<open>{1,2,3}\<close> and \<open>{4,5}\<close>, of shapes 2 by 3 with density 2/3 and 1 by 2 with
  density 1.
\<close>

theorem shape_values_witness:
  "\<exists>sh xim. partition_loop (init_finder 6) [xor_of [1, 2], xor_of [2, 3], xor_of [4, 5]] =
        Some finder_123_45 \<and>
     matrix_shapes finder_123_45 [xor_of [1, 2], xor_of [2, 3], xor_of [4, 5]] = Some (sh, xim) \<and>
     length sh = 2 \<and>
     rows (sh ! 0) = 2 \<and> cols (sh ! 0) = 3 \<and>
     card {v. v < 6 \<and> table finder_123_45 ! v = Some 0} = 3 \<and>
     sum_xor_sizes (sh ! 0) = 4 \<and> density (sh ! 0) = 2 / 3 \<and>
     rows (sh ! 1) = 1 \<and> cols (sh ! 1) = 2 \<and>
     card {v. v < 6 \<and> table finder_123_45 ! v = Some 1} = 2 \<and>
     sum_xor_sizes (sh ! 1) = 2 \<and> density (sh ! 1) = 1"
proof -
  let ?xs = "[xor_of [1, 2], xor_of [2, 3], xor_of [4, 5]]"
  have h: "\<forall>x\<in>set ?xs. \<forall>v\<in>set (vars x). v < 6" "\<forall>x\<in>set ?xs. \<not> trivial x \<longrightarrow> vars x \<noteq> []"
    and d: "\<forall>x\<in>set ?xs. distinct (vars x)"
    by (simp_all add: xor_of_def)
  from shape_values [OF h] obtain mf sh xim where
    pl: "partition_loop (init_finder 6) ?xs = Some mf"
    and m: "matrix_shapes mf ?xs = Some (sh, xim)" "length sh = matrix_no mf"
    and a: "\<forall>i<matrix_no mf.
        num (sh ! i) = i \<and>
        rows (sh ! i) = length (component_rows mf i ?xs) \<and>
        cols (sh ! i) = (case reverseTable mf i of None \<Rightarrow> 0 | Some l \<Rightarrow> length l) \<and>
        ((\<forall>x\<in>set ?xs. distinct (vars x)) \<longrightarrow>
           cols (sh ! i) = card {v. v < 6 \<and> table mf ! v = Some i}) \<and>
        sum_xor_sizes (sh ! i) = sum_list (map (\<lambda>x. length (vars x)) (component_rows mf i ?xs)) \<and>
        density (sh ! i) =
          (if rows (sh ! i) * cols (sh ! i) \<noteq> 0
           then real (sum_xor_sizes (sh ! i)) / real (rows (sh ! i) * cols (sh ! i))
           else 0)"
    by blast
  from pl partition_example have mf: "mf = finder_123_45" by simp
  have n2: "matrix_no finder_123_45 = 2" by (simp add: finder_123_45_def)
  have r0: "component_rows finder_123_45 0 ?xs = [xor_of [1, 2], xor_of [2, 3]]"
    and r1: "component_rows finder_123_45 1 ?xs = [xor_of [4, 5]]"
    by (simp_all add: component_rows_def xor_of_def finder_123_45_def)
  have t0: "reverseTable finder_123_45 0 = Some [1, 2, 3]"
    and t1: "reverseTable finder_123_45 1 = Some [4, 5]"
    by (simp_all add: finder_123_45_def)
  have i0: "0 < matrix_no mf" and i1: "1 < matrix_no mf" using mf n2 by simp_all
  note a0 = a [rule_format, OF i0, unfolded mf]
  note a1 = a [rule_format, OF i1, unfolded mf]
  from a0 d have v0: "rows (sh ! 0) = 2" "cols (sh ! 0) = 3" "sum_xor_sizes (sh ! 0) = 4"
    "card {v. v < 6 \<and> table finder_123_45 ! v = Some 0} = cols (sh ! 0)"
    "density (sh ! 0) =
          (if rows (sh ! 0) * cols (sh ! 0) \<noteq> 0
           then real (sum_xor_sizes (sh ! 0)) / real (rows (sh ! 0) * cols (sh ! 0))
           else 0)"
    unfolding r0 t0 by (simp_all add: xor_of_def)
  from a1 d have v1: "rows (sh ! 1) = 1" "cols (sh ! 1) = 2" "sum_xor_sizes (sh ! 1) = 2"
    "card {v. v < 6 \<and> table finder_123_45 ! v = Some 1} = cols (sh ! 1)"
    "density (sh ! 1) =
          (if rows (sh ! 1) * cols (sh ! 1) \<noteq> 0
           then real (sum_xor_sizes (sh ! 1)) / real (rows (sh ! 1) * cols (sh ! 1))
           else 0)"
    unfolding r1 t1 by (simp_all add: xor_of_def)
  have "density (sh ! 0) = 2 / 3" "density (sh ! 1) = 1"
    using v0 v1 by simp_all
  with pl m mf n2 v0 v1 show ?thesis by auto
qed

subsection \<open>The early returns (C5, C6)\<close>

text \<open>
  Claim C6. When the combining of the constraints reports a contradiction,
  \<open>find_matrices\<close> returns false with the finder as reset (no variable has a component,
  no component has members, \<open>matrix_no\<close> is 0), without a matrix, with the configuration
  untouched and nothing attached.
\<close>

theorem contradiction_aborts:
  assumes "decisionLevel S = 0" and "ok S" and "gmatrices S = []"
    and "\<not> fst (xor_together_xors ext (clean_xor_clauses ext (xorclauses S)))"
  shows "\<exists>out. find_matrices ext S = Some out \<and> \<not> ret out \<and>
     table (finder out) = replicate (nVars S) None \<and>
     reverseTable (finder out) = Map.empty \<and> matrix_no (finder out) = 0 \<and>
     gmatrices (solver out) = [] \<and> gqueuedata (solver out) = gqueuedata S \<and>
     conf (solver out) = conf S \<and> attached (solver out) = None"
proof -
  obtain r xs where x: "xor_together_xors ext (clean_xor_clauses ext (xorclauses S)) = (r, xs)"
    by force
  with assms(4) have "\<not> r" by simp
  with assms(1-3) x show ?thesis
    by (simp add: find_matrices_def detach_clear_xorclauses_def init_finder_def)
qed

text \<open>
  The hypotheses of C6 at externals whose combining step fails.
\<close>

theorem contradiction_aborts_witness:
  "\<exists>out. find_matrices ext_unsat (solver_of [xor_of [1, 2], xor_of [2, 3]] None conf_default) = Some out \<and>
     \<not> ret out \<and>
     table (finder out) = replicate (nVars (solver_of [xor_of [1, 2], xor_of [2, 3]] None conf_default)) None \<and>
     reverseTable (finder out) = Map.empty \<and> matrix_no (finder out) = 0 \<and>
     gmatrices (solver out) = [] \<and>
     gqueuedata (solver out) = gqueuedata (solver_of [xor_of [1, 2], xor_of [2, 3]] None conf_default) \<and>
     conf (solver out) = conf (solver_of [xor_of [1, 2], xor_of [2, 3]] None conf_default) \<and>
     attached (solver out) = None"
  by (rule contradiction_aborts) (simp_all add: solver_of_def ext_unsat_def ext_id_def)

lemma early_exits_char:
  assumes "decisionLevel S = 0" and "ok S" and "gmatrices S = []"
    and "xor_together_xors ext (clean_xor_clauses ext (xorclauses S)) = (True, xs)"
    and "length xs < min_gauss_xor_clauses (gaussconf (conf S)) \<or>
         (max_gauss_xor_clauses (gaussconf (conf S)) < length xs \<and> sampling_vars (conf S) \<noteq> None) \<or>
         \<not> doMatrixFind (gaussconf (conf S))"
  shows "\<exists>out. find_matrices ext S = Some out \<and> finder out = init_finder (nVars S) \<and>
     gmatrices (solver out) = [] \<and> xorclauses (solver out) = xs \<and>
     attached (solver out) = Some xs \<and>
     (matrix_created out \<longleftrightarrow>
        \<not> (length xs < min_gauss_xor_clauses (gaussconf (conf S)) \<or>
           (max_gauss_xor_clauses (gaussconf (conf S)) < length xs \<and>
            sampling_vars (conf S) \<noteq> None)))"
  using assms
  by (auto simp: find_matrices_def skip_matrices_def detach_clear_xorclauses_def
      attach_xorclauses_def set_clash_decision_vars_def Let_def)

text \<open>
  Claim C5, at an input that takes the third early exit (matrix finding switched off,
  three constraints, \<open>min_gauss_xor_clauses = 1\<close>, no sampling variables): no matrix is
  built, nothing is partitioned and the pool is the input, but the out-parameter
  \<open>matrix_created\<close> still holds the \<open>true\<close> of line 101. The two exits before it set
  it to \<open>false\<close>.
\<close>

theorem disabled_switch_reports_created:
  "\<exists>out. find_matrices ext_id
       (solver_of [xor_of [1, 2], xor_of [2, 3], xor_of [4, 5]] None
          (conf_default\<lparr>doMatrixFind := False\<rparr>)) = Some out \<and>
     matrix_created out \<and> gmatrices (solver out) = [] \<and>
     finder out = init_finder 6 \<and>
     xorclauses (solver out) = [xor_of [1, 2], xor_of [2, 3], xor_of [4, 5]]"
  by (simp add: find_matrices_def skip_matrices_def detach_clear_xorclauses_def
      attach_xorclauses_def set_clash_decision_vars_def solver_of_def ext_id_def
      conf_default_def Let_def)

end
